theory Spec2Isabelle
  imports Complex_Main "HOL-Library.Word" "HOL-Library.Multiset" "HOL-Library.List_Lexorder"
begin

unbundle bit_operations_syntax

section \<open>Bytes, JavaScript strings, typed arrays\<close>

text \<open>
  A byte is an 8-bit word; a JavaScript string is its sequence of UTF-16 code units.
  JavaScript numbers that hold sizes, offsets and counts are exact non-negative integers
  (below \<open>2 ^ 53\<close>) and are modelled as \<open>nat\<close>; the places where the code narrows them
  (\<open>& 0xFF\<close>, \<open>setUint32\<close>, a store into a \<open>Uint8Array\<close>) are written out.
\<close>

type_synonym byte = "8 word"
type_synonym jsstring = "16 word list"

datatype error =
    Error string        \<comment> \<open>\<open>throw new Error(msg)\<close>\<close>
  | AppError string     \<comment> \<open>\<open>throw new AppError(msg)\<close>\<close>
  | RangeError          \<comment> \<open>raised by typed arrays and data views on an access out of bounds\<close>
  | TypeError           \<comment> \<open>raised on reading a property of \<open>undefined\<close>\<close>

definition bindE :: "error + 'a \<Rightarrow> ('a \<Rightarrow> error + 'b) \<Rightarrow> error + 'b" where
  "bindE m f = (case m of Inl e \<Rightarrow> Inl e | Inr x \<Rightarrow> f x)"

text \<open>String literals of the source, as code units.\<close>

definition ascii :: "string \<Rightarrow> jsstring" where
  "ascii s = map of_char s"

definition dot :: "16 word" where "dot = 0x2E"
definition slash :: "16 word" where "slash = 0x2F"

text \<open>\<open>target.set(src, off)\<close> of a typed array: copies, or raises when \<open>src\<close> does not fit.\<close>

definition set_at :: "byte list \<Rightarrow> byte list \<Rightarrow> nat \<Rightarrow> error + byte list" where
  "set_at target src off =
     (if off + length src \<le> length target
      then Inr (take off target @ src @ drop (off + length src) target)
      else Inl RangeError)"

text \<open>\<open>arr[i] = v\<close> on a typed array: a store out of range is ignored.\<close>

definition store_at :: "byte list \<Rightarrow> nat \<Rightarrow> byte \<Rightarrow> byte list" where
  "store_at arr i v = (if i < length arr then arr[i := v] else arr)"

text \<open>
  \<open>packUint32\<close> and \<open>packUint16\<close> (the same text in SpiffsGenerator and WakenetModelPacker):
  \<open>bytes[k] = (v >> 8k) & 0xFF\<close>. On a non-negative integer the 32-bit conversion of the
  bit operators keeps bits 0..31, so byte \<open>k\<close> is bits \<open>8k .. 8k+7\<close> of \<open>v\<close>.
\<close>

definition packUint32 :: "nat \<Rightarrow> byte list" where
  "packUint32 v = [of_nat (take_bit 8 v), of_nat (take_bit 8 (drop_bit 8 v)),
                   of_nat (take_bit 8 (drop_bit 16 v)), of_nat (take_bit 8 (drop_bit 24 v))]"

definition packUint16 :: "nat \<Rightarrow> byte list" where
  "packUint16 v = [of_nat (take_bit 8 v), of_nat (take_bit 8 (drop_bit 8 v))]"

text \<open>Readers of the packed fields (what a consumer of the formats does).\<close>

fun le32 :: "byte list \<Rightarrow> nat" where
  "le32 (a # b # c # d # _) = unat a + 256 * unat b + 65536 * unat c + 16777216 * unat d"
| "le32 _ = 0"

fun le16 :: "byte list \<Rightarrow> nat" where
  "le16 (a # b # _) = unat a + 256 * unat b"
| "le16 _ = 0"

definition slice :: "byte list \<Rightarrow> nat \<Rightarrow> nat \<Rightarrow> byte list" where
  "slice xs pos len = take len (drop pos xs)"

subsection \<open>TextEncoder\<close>

text \<open>
  \<open>TextEncoder.encode\<close> is the platform's UTF-8 encoder: the string is first read as
  Unicode scalar values (a surrogate pair is one value, a lone surrogate becomes U+FFFD),
  then each value is written in one to four bytes.
\<close>

definition is_high_surrogate :: "16 word \<Rightarrow> bool" where
  "is_high_surrogate c = (0xD800 \<le> unat c \<and> unat c \<le> 0xDBFF)"

definition is_low_surrogate :: "16 word \<Rightarrow> bool" where
  "is_low_surrogate c = (0xDC00 \<le> unat c \<and> unat c \<le> 0xDFFF)"

definition lone_unit :: "16 word \<Rightarrow> nat" where
  "lone_unit c = (if is_high_surrogate c \<or> is_low_surrogate c then 0xFFFD else unat c)"

fun scalar_values :: "jsstring \<Rightarrow> nat list" where
  "scalar_values [] = []"
| "scalar_values [c] = [lone_unit c]"
| "scalar_values (c # d # cs) =
     (if is_high_surrogate c \<and> is_low_surrogate d
      then (0x10000 + (unat c - 0xD800) * 0x400 + (unat d - 0xDC00)) # scalar_values cs
      else lone_unit c # scalar_values (d # cs))"

definition utf8_bytes :: "nat \<Rightarrow> byte list" where
  "utf8_bytes cp =
     (if cp < 0x80 then [of_nat cp]
      else if cp < 0x800 then [of_nat (0xC0 + cp div 64), of_nat (0x80 + cp mod 64)]
      else if cp < 0x10000 then
        [of_nat (0xE0 + cp div 4096), of_nat (0x80 + cp div 64 mod 64), of_nat (0x80 + cp mod 64)]
      else
        [of_nat (0xF0 + cp div 262144), of_nat (0x80 + cp div 4096 mod 64),
         of_nat (0x80 + cp div 64 mod 64), of_nat (0x80 + cp mod 64)])"

definition textEncoder_encode :: "jsstring \<Rightarrow> byte list" where
  "textEncoder_encode s = concat (map utf8_bytes (scalar_values s))"

subsection \<open>The host\<close>

text \<open>
  What the browser supplies and the repository does not define: the locale's collation
  (\<open>String.prototype.localeCompare\<close>), Unicode lower-casing, and the image decoder behind
  \<open>getImageDimensions\<close> (which resolves to the decoded size, or to 0 by 0 on a failure).
  They are parameters of the model.
\<close>

record host =
  localeCompare :: "jsstring \<Rightarrow> jsstring \<Rightarrow> int"
  toLowerCase :: "jsstring \<Rightarrow> jsstring"
  getImageDimensions :: "byte list \<Rightarrow> nat \<times> nat"

text \<open>
  \<open>Array.prototype.sort(cmp)\<close> is a stable sort; for a comparator that orders the elements
  consistently its result is the one stable sorted arrangement, which insertion from the
  right computes.
\<close>

fun insert_by :: "('a \<Rightarrow> 'a \<Rightarrow> int) \<Rightarrow> 'a \<Rightarrow> 'a list \<Rightarrow> 'a list" where
  "insert_by cmp x [] = [x]"
| "insert_by cmp x (y # ys) = (if cmp x y \<le> 0 then x # y # ys else y # insert_by cmp x ys)"

definition array_sort :: "('a \<Rightarrow> 'a \<Rightarrow> int) \<Rightarrow> 'a list \<Rightarrow> 'a list" where
  "array_sort cmp xs = foldr (insert_by cmp) xs []"

text \<open>\<open>s.split('.')\<close> and \<open>array.pop()\<close> (\<open>None\<close> is \<open>undefined\<close>).\<close>

fun split_dot :: "jsstring \<Rightarrow> jsstring list" where
  "split_dot [] = [[]]"
| "split_dot (c # cs) =
     (if c = dot then [] # split_dot cs
      else (case split_dot cs of [] \<Rightarrow> [[c]] | s # ss \<Rightarrow> (c # s) # ss))"

definition pop :: "'a list \<Rightarrow> 'a option" where
  "pop xs = (if xs = [] then None else Some (last xs))"

text \<open>\<open>x || ''\<close>: the empty string for \<open>undefined\<close> and for the empty string.\<close>

definition or_empty :: "jsstring option \<Rightarrow> jsstring" where
  "or_empty x = (case x of None \<Rightarrow> [] | Some s \<Rightarrow> s)"

text \<open>
  \<open>s.replace(/\.[^/.]+$/, '')\<close>: at the leftmost position holding a dot that is followed,
  up to the end of the string, by one or more characters other than slash and dot, the
  rest of the string is removed.
\<close>

fun strip_extension :: "jsstring \<Rightarrow> jsstring" where
  "strip_extension [] = []"
| "strip_extension (c # cs) =
     (if c = dot \<and> cs \<noteq> [] \<and> list_all (\<lambda>d. d \<noteq> slash \<and> d \<noteq> dot) cs then []
      else c # strip_extension cs)"

section \<open>SpiffsGenerator\<close>

record sfile =
  filename :: jsstring
  data :: "byte list"
  size_f :: nat
  width :: nat
  height :: nat

record fileInfo = sfile +
  offset :: nat

record options =
  opt_width :: "nat option"
  opt_height :: "nat option"

text \<open>\<open>options.width || 0\<close>.\<close>

definition or_zero :: "nat option \<Rightarrow> nat" where
  "or_zero x = (case x of None \<Rightarrow> 0 | Some n \<Rightarrow> n)"

text \<open>The generator's state is its list \<open>files\<close>; the constructor starts it empty.\<close>

definition addFile :: "sfile list \<Rightarrow> jsstring \<Rightarrow> byte list \<Rightarrow> options \<Rightarrow> sfile list" where
  "addFile files fname d opts =
     files @ [\<lparr>filename = fname, data = d, size_f = length d,
               width = or_zero (opt_width opts), height = or_zero (opt_height opts)\<rparr>]"

type_synonym entry = "jsstring \<times> byte list \<times> options"

definition addFiles :: "entry list \<Rightarrow> sfile list" where
  "addFiles es = foldl (\<lambda>files (fname, d, opts). addFile files fname d opts) [] es"

text \<open>\<open>view.getUint16(pos, true)\<close>.\<close>

definition getUint16 :: "byte list \<Rightarrow> nat \<Rightarrow> error + nat" where
  "getUint16 d pos =
     (if pos + 2 \<le> length d then Inr (unat (d ! pos) + 256 * unat (d ! (pos + 1)))
      else Inl RangeError)"

definition parseSpecialImageFormat :: "host \<Rightarrow> jsstring \<Rightarrow> byte list \<Rightarrow> nat \<times> nat" where
  "parseSpecialImageFormat h fname d =
     (let ext = or_empty (pop (split_dot (toLowerCase h fname))) in
      if dot # ext \<in> set [ascii ''.sjpg'', ascii ''.spng'', ascii ''.sqoi''] then
        (case getUint16 d 14 of
           Inl _ \<Rightarrow> (0, 0)
         | Inr w \<Rightarrow> (case getUint16 d 16 of Inl _ \<Rightarrow> (0, 0) | Inr ht \<Rightarrow> (w, ht)))
      else (0, 0))"

definition spiffs_packString :: "jsstring \<Rightarrow> nat \<Rightarrow> error + byte list" where
  "spiffs_packString s maxLen =
     (let bytes = replicate maxLen 0;
          encoded = textEncoder_encode s;
          copyLen = min (length encoded) maxLen
      in set_at bytes (take copyLen encoded) 0)"

text \<open>
  The loop adds doubles; the sum of the bytes of a buffer is an exact integer, and
  \<open>& 0xFFFF\<close> keeps its low 16 bits.
\<close>

definition computeChecksum :: "byte list \<Rightarrow> nat" where
  "computeChecksum d = take_bit 16 (foldl (\<lambda>checksum b. checksum + unat b) 0 d)"

definition compare_files :: "host \<Rightarrow> sfile \<Rightarrow> sfile \<Rightarrow> int" where
  "compare_files h a b =
     (let extA = or_empty (pop (split_dot (filename a)));
          extB = or_empty (pop (split_dot (filename b)))
      in if extA \<noteq> extB then localeCompare h extA extB
         else localeCompare h (strip_extension (filename a)) (strip_extension (filename b)))"

definition sortFiles :: "host \<Rightarrow> sfile list \<Rightarrow> sfile list" where
  "sortFiles h files = array_sort (compare_files h) files"

text \<open>The size a file goes into the table with (first loop of \<open>generate\<close>).\<close>

definition resolve_dimensions :: "host \<Rightarrow> sfile \<Rightarrow> nat \<times> nat" where
  "resolve_dimensions h f =
     (if width f = 0 \<and> height f = 0 then
        (let specialDimensions = parseSpecialImageFormat h (filename f) (data f) in
         if fst specialDimensions > 0 \<or> snd specialDimensions > 0 then specialDimensions
         else
           (let ext = or_empty (pop (split_dot (toLowerCase h (filename f)))) in
            if ext \<in> set [ascii ''png'', ascii ''jpg'', ascii ''jpeg'', ascii ''gif'',
                           ascii ''bmp'', ascii ''webp'']
            then getImageDimensions h (data f)
            else (width f, height f)))
      else (width f, height f))"

fun info_loop :: "host \<Rightarrow> sfile list \<Rightarrow> fileInfo list \<Rightarrow> nat \<Rightarrow> fileInfo list \<times> nat" where
  "info_loop h [] fileInfoList mergedDataSize = (fileInfoList, mergedDataSize)"
| "info_loop h (f # rest) fileInfoList mergedDataSize =
     info_loop h rest
       (fileInfoList @
          [\<lparr>filename = filename f, data = data f, size_f = size_f f,
            width = fst (resolve_dimensions h f), height = snd (resolve_dimensions h f),
            offset = mergedDataSize\<rparr>])
       (mergedDataSize + (2 + size_f f))"

fun mmap_loop :: "fileInfo list \<Rightarrow> byte list \<Rightarrow> nat \<Rightarrow> error + byte list" where
  "mmap_loop [] mmapTable mmapOffset = Inr mmapTable"
| "mmap_loop (fileInfo # rest) mmapTable mmapOffset =
     bindE (spiffs_packString (filename fileInfo) 32) (\<lambda>name.
     bindE (set_at mmapTable name mmapOffset) (\<lambda>t1.
     bindE (set_at t1 (packUint32 (size_f fileInfo)) (mmapOffset + 32)) (\<lambda>t2.
     bindE (set_at t2 (packUint32 (offset fileInfo)) (mmapOffset + 32 + 4)) (\<lambda>t3.
     bindE (set_at t3 (packUint16 (width fileInfo)) (mmapOffset + 32 + 4 + 4)) (\<lambda>t4.
     bindE (set_at t4 (packUint16 (height fileInfo)) (mmapOffset + 32 + 4 + 4 + 2)) (\<lambda>t5.
     mmap_loop rest t5 (mmapOffset + 32 + 4 + 4 + 2 + 2)))))))"

fun merge_loop :: "fileInfo list \<Rightarrow> byte list \<Rightarrow> nat \<Rightarrow> error + byte list" where
  "merge_loop [] mergedData mergedOffset = Inr mergedData"
| "merge_loop (fileInfo # rest) mergedData mergedOffset =
     (let m1 = store_at mergedData mergedOffset 0x5A;
          m2 = store_at m1 (mergedOffset + 1) 0x5A
      in bindE (set_at m2 (data fileInfo) (mergedOffset + 2)) (\<lambda>m3.
         merge_loop rest m3 (mergedOffset + 2 + size_f fileInfo)))"

definition generate :: "host \<Rightarrow> sfile list \<Rightarrow> error + byte list" where
  "generate h files =
     (if length files = 0 then Inl (Error ''No files to package'')
      else
        (let sortedFiles = sortFiles h files;
             totalFiles = length sortedFiles;
             fileInfoList = fst (info_loop h sortedFiles [] 0);
             mergedDataSize = snd (info_loop h sortedFiles [] 0);
             mmapTableSize = totalFiles * (32 + 4 + 4 + 2 + 2)
         in
         bindE (mmap_loop fileInfoList (replicate mmapTableSize 0) 0) (\<lambda>mmapTable.
         bindE (merge_loop fileInfoList (replicate mergedDataSize 0) 0) (\<lambda>mergedData.
         bindE (set_at (replicate (mmapTableSize + mergedDataSize) 0) mmapTable 0) (\<lambda>c1.
         bindE (set_at c1 mergedData mmapTableSize) (\<lambda>combinedData.
           (let checksum = computeChecksum combinedData;
                combinedDataLength = length combinedData;
                headerSize = 4 + 4 + 4;
                totalSize = headerSize + combinedDataLength
            in
            bindE (set_at (replicate totalSize 0) (packUint32 totalFiles) 0) (\<lambda>f1.
            bindE (set_at f1 (packUint32 checksum) 4) (\<lambda>f2.
            bindE (set_at f2 (packUint32 combinedDataLength) (4 + 4)) (\<lambda>f3.
            set_at f3 combinedData (4 + 4 + 4)))))))))))"
subsection \<open>The layout of the container, as a value\<close>

text \<open>
  The container as the concatenation the writes of \<open>generate\<close> amount to (proved below),
  and the readers a consumer uses on it: a 12-byte header, 44 bytes per table entry, then
  the data region.
\<close>

definition name32 :: "jsstring \<Rightarrow> nat \<Rightarrow> byte list" where
  "name32 s n = take n (textEncoder_encode s) @ replicate (n - length (textEncoder_encode s)) 0"

definition mmap_entry :: "fileInfo \<Rightarrow> byte list" where
  "mmap_entry fi = name32 (filename fi) 32 @ packUint32 (size_f fi) @ packUint32 (offset fi)
     @ packUint16 (width fi) @ packUint16 (height fi)"

definition marked :: "fileInfo \<Rightarrow> byte list" where
  "marked fi = [0x5A, 0x5A] @ data fi"

fun file_infos :: "host \<Rightarrow> sfile list \<Rightarrow> nat \<Rightarrow> fileInfo list" where
  "file_infos h [] m = []"
| "file_infos h (f # rest) m =
     \<lparr>filename = filename f, data = data f, size_f = size_f f,
      width = fst (resolve_dimensions h f), height = snd (resolve_dimensions h f),
      offset = m\<rparr> # file_infos h rest (m + (2 + size_f f))"

definition packed_infos :: "host \<Rightarrow> sfile list \<Rightarrow> fileInfo list" where
  "packed_infos h files = file_infos h (sortFiles h files) 0"

definition table_bytes :: "host \<Rightarrow> sfile list \<Rightarrow> byte list" where
  "table_bytes h files = concat (map mmap_entry (packed_infos h files))"

definition region_bytes :: "host \<Rightarrow> sfile list \<Rightarrow> byte list" where
  "region_bytes h files = concat (map marked (packed_infos h files))"

definition container :: "host \<Rightarrow> sfile list \<Rightarrow> byte list" where
  "container h files =
     packUint32 (length files)
     @ packUint32 (computeChecksum (table_bytes h files @ region_bytes h files))
     @ packUint32 (length (table_bytes h files @ region_bytes h files))
     @ table_bytes h files @ region_bytes h files"

definition marker_position :: "sfile list \<Rightarrow> nat \<Rightarrow> nat" where
  "marker_position packed i = (\<Sum>j<i. 2 + size_f (packed ! j))"

definition data_region :: "nat \<Rightarrow> byte list \<Rightarrow> byte list" where
  "data_region n out = drop (12 + 44 * n) out"

definition mapping_table :: "nat \<Rightarrow> byte list \<Rightarrow> byte list" where
  "mapping_table n out = slice out 12 (44 * n)"

definition byte_sum :: "byte list \<Rightarrow> nat" where
  "byte_sum bs = sum_list (map unat bs)"

subsection \<open>A concrete host and concrete entries\<close>

text \<open>
  For running the model: the collation by code units, lower-casing of the ASCII letters,
  and an image decoder that fails on every input.
\<close>

definition codeUnitCompare :: "jsstring \<Rightarrow> jsstring \<Rightarrow> int" where
  "codeUnitCompare a b = (if a < b then - 1 else if a = b then 0 else 1)"

definition asciiLower :: "jsstring \<Rightarrow> jsstring" where
  "asciiLower s = map (\<lambda>c. if 0x41 \<le> c \<and> c \<le> 0x5A then c + 0x20 else c) s"

definition example_host :: host where
  "example_host = \<lparr>localeCompare = codeUnitCompare, toLowerCase = asciiLower,
                    getImageDimensions = (\<lambda>_. (0, 0))\<rparr>"

definition no_options :: options where
  "no_options = \<lparr>opt_width = None, opt_height = None\<rparr>"

definition example_entries :: "entry list" where
  "example_entries =
     [(ascii ''b.bin'', [1, 2, 3], no_options),
      (ascii ''index.json'', [], no_options),
      (ascii ''a.bin'', [255, 255], no_options)]"

definition long_name_entries :: "entry list" where
  "long_name_entries =
     [(ascii ''abcdefghijklmnopqrstuvwxyz0123456789.bin'', [1], no_options),
      (ascii ''abcdefghijklmnopqrstuvwxyz012345_other.bin'', [2], no_options)]"
subsection \<open>The sort key and the orders a comparator gives\<close>

text \<open>
  The pair the comparator of \<open>sortFiles\<close> looks at, and what it means for the host's
  collation to be a linear order on a set of strings and for a comparator to order a set
  consistently (total and transitive).
\<close>

definition sort_key :: "sfile \<Rightarrow> jsstring \<times> jsstring" where
  "sort_key f = (or_empty (pop (split_dot (filename f))), strip_extension (filename f))"

definition key_strings :: "sfile list \<Rightarrow> jsstring set" where
  "key_strings fs = set (map (fst \<circ> sort_key) fs) \<union> set (map (snd \<circ> sort_key) fs)"

definition linear_on :: "jsstring set \<Rightarrow> (jsstring \<Rightarrow> jsstring \<Rightarrow> int) \<Rightarrow> bool" where
  "linear_on S lc =
     ((\<forall>x\<in>S. \<forall>y\<in>S. (lc x y = 0) = (x = y)) \<and>
      (\<forall>x\<in>S. \<forall>y\<in>S. (lc x y < 0) = (0 < lc y x)) \<and>
      (\<forall>x\<in>S. \<forall>y\<in>S. \<forall>z\<in>S. lc x y \<le> 0 \<longrightarrow> lc y z \<le> 0 \<longrightarrow> lc x z \<le> 0))"

definition key_before ::
  "(jsstring \<Rightarrow> jsstring \<Rightarrow> int) \<Rightarrow> jsstring \<times> jsstring \<Rightarrow> jsstring \<times> jsstring \<Rightarrow> bool" where
  "key_before lc k1 k2 =
     (lc (fst k1) (fst k2) < 0 \<or> (fst k1 = fst k2 \<and> lc (snd k1) (snd k2) < 0))"

definition equal_key_entries :: "entry list" where
  "equal_key_entries = [(ascii ''a'', [1], no_options), (ascii ''a.a'', [2], no_options)]"

definition consistent_on :: "'a set \<Rightarrow> ('a \<Rightarrow> 'a \<Rightarrow> int) \<Rightarrow> bool" where
  "consistent_on A c =
     ((\<forall>a\<in>A. \<forall>b\<in>A. c a b \<le> 0 \<or> c b a \<le> 0) \<and>
      (\<forall>a\<in>A. \<forall>b\<in>A. \<forall>d\<in>A. c a b \<le> 0 \<longrightarrow> c b d \<le> 0 \<longrightarrow> c a d \<le> 0))"
section \<open>CBinFont\<close>

text \<open>
  The font data a writer receives. Its producer (\<open>collect_font_data\<close>) and the planner of
  the cmap subtables (\<open>cmap_build_subtables\<close>) are not part of the sources at hand: the glyph
  list is an input, and the planner is a parameter. \<open>advanceWidth\<close> is a double; every finite
  double is a rational number and multiplying a double by 16 is exact, so
  \<open>Math.round(advanceWidth * 16)\<close> is the integer \<open>\<lfloor>16 * advanceWidth + 1/2\<rfloor>\<close>.
\<close>

record glyph =
  code :: nat
  advanceWidth :: rat
  bbox_x :: int
  bbox_y :: int
  bbox_width :: nat
  bbox_height :: nat
  pixels :: "nat list list"

record fontData =
  glyphs :: "glyph list option"   \<comment> \<open>\<open>None\<close>: the property is \<open>undefined\<close>\<close>
  ascent :: int
  descent :: int
  subpixels_mode :: int
  underlinePosition :: int
  underlineThickness :: int

record args =
  bpp :: nat
  no_compress :: bool
  no_prefilter :: bool
  output_name :: "string option"

datatype cmap_format = format0_tiny | format0 | sparse_tiny | sparse

type_synonym planner = "nat list \<Rightarrow> (cmap_format \<times> nat list) list"

record cbinfont =
  src :: fontData
  opts :: args
  glyph_id :: "nat \<rightharpoonup> nat"

definition ptr_size :: nat where
  "ptr_size = 4"

text \<open>\<open>CmapTable.buildGlyphIdMap\<close>: \<open>f.glyph_id[glyph.code] = index + 1\<close> for each glyph in turn.\<close>

definition buildGlyphIdMap :: "glyph list option \<Rightarrow> (nat \<rightharpoonup> nat)" where
  "buildGlyphIdMap gs =
     (case gs of
        None \<Rightarrow> Map.empty
      | Some l \<Rightarrow> foldl (\<lambda>m (g, index). m(code g \<mapsto> index + 1)) Map.empty (zip l [0..<length l]))"

definition bpp3_message :: string where
  "bpp3_message = ''LVGL supports '' @ [CHR 0x22] @ ''--bpp 3'' @ [CHR 0x22] @ '' with compression only''"

text \<open>
  The constructor: the check on \<open>bpp\<close>, then \<open>init_tables\<close>, of which only the constructor of
  \<open>CmapTable\<close> has an effect (it builds the glyph ids).
\<close>

definition CBinFont_new :: "fontData \<Rightarrow> args \<Rightarrow> error + cbinfont" where
  "CBinFont_new fontData options =
     (if bpp options = 3 \<and> no_compress options then Inl (AppError bpp3_message)
      else Inr \<lparr>src = fontData, opts = options, glyph_id = buildGlyphIdMap (glyphs fontData)\<rparr>)"

subsection \<open>DataView\<close>

text \<open>
  \<open>setUint32\<close>, \<open>setInt32\<close>, \<open>setUint16\<close>, \<open>setInt16\<close>, \<open>setUint8\<close>, \<open>setInt8\<close> with
  \<open>littleEndian = true\<close>: the value is reduced modulo \<open>2 ^ (8 * n)\<close> (two's complement for a
  negative one) and its \<open>n\<close> bytes are stored, low byte first; a position out of the
  buffer raises.
\<close>

fun le_bytes :: "nat \<Rightarrow> int \<Rightarrow> byte list" where
  "le_bytes 0 v = []"
| "le_bytes (Suc n) v = of_int (v mod 256) # le_bytes n (v div 256)"

definition setUint :: "nat \<Rightarrow> byte list \<Rightarrow> nat \<Rightarrow> int \<Rightarrow> error + byte list" where
  "setUint n view pos v = set_at view (le_bytes n v) pos"

definition writePTR :: "nat \<Rightarrow> byte list \<Rightarrow> int \<Rightarrow> nat \<Rightarrow> error + byte list" where
  "writePTR psize view v pos =
     (if psize = 4 then setUint 4 view pos v
      else bindE (setUint 4 view pos v) (\<lambda>b. setUint 4 b (pos + 4) 0))"

definition balign4 :: "byte list \<Rightarrow> byte list" where
  "balign4 buf =
     (let remainder = length buf mod 4 in
      if remainder = 0 then buf else buf @ replicate (4 - remainder) 0)"

subsection \<open>SimpleBitStream\<close>

record bitstream =
  buffer :: "byte list"
  byteIndex :: nat
  bitIndex :: nat

text \<open>\<open>buffer[i] |= x\<close> on a \<open>Uint8Array\<close>: out of range nothing is stored.\<close>

definition or_at :: "byte list \<Rightarrow> nat \<Rightarrow> nat \<Rightarrow> byte list" where
  "or_at buf i x = (if i < length buf then buf[i := (buf ! i) OR of_nat x] else buf)"

text \<open>
  \<open>writeBits\<close> with \<open>bigEndian = true\<close>. The stream keeps \<open>bitIndex\<close> below 8 (it starts at 0
  and is reset on reaching 8), which is what lets each round write at least one bit; the
  model's loop condition says so. \<open>value >> n\<close> converts \<open>value\<close> to a signed 32-bit integer,
  takes the shift count modulo 32 and shifts arithmetically; \<open>bitsToWrite\<close> is at most 8, so
  \<open>1 << bitsToWrite\<close> and the mask are exact and the masked value lies in 0..255.
\<close>

definition shift_right :: "nat \<Rightarrow> nat \<Rightarrow> 32 word" where
  "shift_right v n = signed_drop_bit (n mod 32) (word_of_nat v)"

function writeBits :: "bitstream \<Rightarrow> nat \<Rightarrow> nat \<Rightarrow> bitstream" where
  "writeBits bs v bits =
     (if 0 < bits \<and> bitIndex bs < 8 then
        (let bitsToWrite = min (8 - bitIndex bs) bits;
             mask = 2 ^ bitsToWrite - 1;
             bitValue = unat (shift_right v (bits - bitsToWrite) AND word_of_nat mask);
             buf = or_at (buffer bs) (byteIndex bs)
                     (push_bit (8 - bitIndex bs - bitsToWrite) bitValue);
             bi = bitIndex bs + bitsToWrite
         in writeBits
              (if 8 \<le> bi then \<lparr>buffer = buf, byteIndex = byteIndex bs + 1, bitIndex = 0\<rparr>
               else \<lparr>buffer = buf, byteIndex = byteIndex bs, bitIndex = bi\<rparr>)
              v (bits - bitsToWrite))
      else bs)"
  by pat_completeness auto
termination
  by (relation "measure (\<lambda>(bs, v, bits). bits)") auto

definition getUsedBytes :: "bitstream \<Rightarrow> nat" where
  "getUsedBytes bs = (if 0 < bitIndex bs then byteIndex bs + 1 else byteIndex bs)"

subsection \<open>GlyfTable\<close>

definition getCompressionCode :: "args \<Rightarrow> nat" where
  "getCompressionCode options =
     (if no_compress options then 0
      else if bpp options = 1 then 0
      else if no_prefilter options then 2
      else 1)"

text \<open>\<open>p >>> (8 - bpp)\<close>: the shift count of \<open>>>>\<close> is taken modulo 32.\<close>

definition pixelsToBpp :: "args \<Rightarrow> nat list list \<Rightarrow> nat list list" where
  "pixelsToBpp options px =
     map (\<lambda>line. map (\<lambda>p. drop_bit (nat ((8 - int (bpp options)) mod 32)) (take_bit 32 p)) line) px"

definition storePixelsRaw :: "args \<Rightarrow> bitstream \<Rightarrow> nat list list \<Rightarrow> bitstream" where
  "storePixelsRaw options bitStream px =
     foldl (\<lambda>bs line. foldl (\<lambda>bs' p. writeBits bs' p (bpp options)) bs line) bitStream px"

text \<open>\<open>storePixelsCompressed\<close> calls the raw version.\<close>

definition storePixels :: "args \<Rightarrow> bitstream \<Rightarrow> nat list list \<Rightarrow> bitstream" where
  "storePixels options bitStream px =
     (if getCompressionCode options = 0 then storePixelsRaw options bitStream px
      else storePixelsRaw options bitStream px)"

definition lv_bitmap :: "args \<Rightarrow> glyph \<Rightarrow> byte list" where
  "lv_bitmap options g =
     (let bufSize = 100 + bbox_width g * bbox_height g * 4;
          bs = storePixels options \<lparr>buffer = replicate bufSize 0, byteIndex = 0, bitIndex = 0\<rparr>
                 (pixelsToBpp options (pixels g));
          used = getUsedBytes bs
      in take used (buffer bs) @ replicate (used - bufSize) 0)"

record lv_entry =
  lv_bin :: "byte list"
  lv_offset :: nat
  lv_glyph :: glyph

text \<open>\<open>arr[i] = v\<close> on an array with holes (\<open>None\<close>): the array grows to hold index \<open>i\<close>.\<close>

definition arr_set :: "'a option list \<Rightarrow> nat \<Rightarrow> 'a \<Rightarrow> 'a option list" where
  "arr_set arr i v =
     (if i < length arr then arr[i := Some v]
      else arr @ replicate (i - length arr) None @ [Some v])"

text \<open>
  \<open>lv_compile\<close>: \<open>lv_data[id] = {bin, offset, glyph}\<close> with \<open>id = f.glyph_id[g.code]\<close>. An
  \<open>undefined\<close> id would name a property that is no element of the array.
\<close>

fun lv_compile_loop ::
  "cbinfont \<Rightarrow> glyph list \<Rightarrow> lv_entry option list \<Rightarrow> nat \<Rightarrow> lv_entry option list" where
  "lv_compile_loop f [] lv_data off = lv_data"
| "lv_compile_loop f (g # gs) lv_data off =
     (let bin = lv_bitmap (opts f) g in
      lv_compile_loop f gs
        (case glyph_id f (code g) of
           None \<Rightarrow> lv_data
         | Some i \<Rightarrow> arr_set lv_data i \<lparr>lv_bin = bin, lv_offset = off, lv_glyph = g\<rparr>)
        (off + length bin))"

definition lv_compile :: "cbinfont \<Rightarrow> error + lv_entry option list" where
  "lv_compile f =
     (case glyphs (src f) of
        None \<Rightarrow> Inl TypeError
      | Some gs \<Rightarrow> Inr (lv_compile_loop f gs [] 0))"

definition round_q4 :: "rat \<Rightarrow> int" where
  "round_q4 w = \<lfloor>w * 16 + 1 / 2\<rfloor>"

text \<open>The body of the \<open>forEach\<close> of \<open>GlyfTable.toCBin\<close> for one element \<open>d\<close> and the counter \<open>i\<close>.\<close>

definition write_glyph_dsc :: "byte list \<Rightarrow> nat \<Rightarrow> lv_entry \<Rightarrow> error + byte list" where
  "write_glyph_dsc view i d =
     bindE (setUint 4 view (i * 16) (int (lv_offset d))) (\<lambda>v1.
     bindE (setUint 4 v1 (i * 16 + 4) (round_q4 (advanceWidth (lv_glyph d)))) (\<lambda>v2.
     bindE (setUint 2 v2 (i * 16 + 8) (int (bbox_width (lv_glyph d)))) (\<lambda>v3.
     bindE (setUint 2 v3 (i * 16 + 10) (int (bbox_height (lv_glyph d)))) (\<lambda>v4.
     bindE (setUint 2 v4 (i * 16 + 12) (bbox_x (lv_glyph d))) (\<lambda>v5.
     setUint 2 v5 (i * 16 + 14) (bbox_y (lv_glyph d)))))))"

text \<open>\<open>forEach\<close> calls its function on the elements that exist, in index order.\<close>

fun glyph_dsc_loop :: "lv_entry option list \<Rightarrow> byte list \<Rightarrow> nat \<Rightarrow> error + byte list" where
  "glyph_dsc_loop [] view i = Inr view"
| "glyph_dsc_loop (None # rest) view i = glyph_dsc_loop rest view i"
| "glyph_dsc_loop (Some d # rest) view i =
     bindE (write_glyph_dsc view i d) (\<lambda>view'. glyph_dsc_loop rest view' (i + 1))"

definition glyf_toCBin :: "cbinfont \<Rightarrow> error + byte list \<times> byte list" where
  "glyf_toCBin f =
     bindE (lv_compile f) (\<lambda>lv_data.
       (let validBins = map lv_bin (List.map_filter (\<lambda>d. d) (drop 1 lv_data));
            bitmap_buf = balign4 (concat validBins);
            glyph_dsc_buf = replicate (length lv_data * 16 + 16) 0
        in bindE (glyph_dsc_loop lv_data glyph_dsc_buf 1) (\<lambda>dsc. Inr (bitmap_buf, dsc))))"
subsection \<open>CmapTable\<close>

text \<open>
  A JavaScript number that may be \<open>NaN\<close> (\<open>None\<close>): reading an absent key of \<open>glyph_id\<close> gives
  \<open>undefined\<close>, arithmetic on it \<open>NaN\<close>, and typed arrays and data views store \<open>NaN\<close> as 0.
\<close>

definition sub_num :: "nat option \<Rightarrow> nat option \<Rightarrow> int option" where
  "sub_num a b = (case a of None \<Rightarrow> None | Some x \<Rightarrow> (case b of None \<Rightarrow> None | Some y \<Rightarrow> Some (int x - int y)))"

definition stored_num :: "int option \<Rightarrow> int" where
  "stored_num x = (case x of None \<Rightarrow> 0 | Some v \<Rightarrow> v)"

definition nat_num :: "nat option \<Rightarrow> int option" where
  "nat_num x = map_option int x"

definition glyphByCode :: "cbinfont \<Rightarrow> nat \<Rightarrow> glyph option" where
  "glyphByCode f c =
     (case glyphs (src f) of None \<Rightarrow> None | Some gs \<Rightarrow> find (\<lambda>g. code g = c) gs)"

definition lv_format2int :: "cmap_format \<Rightarrow> int" where
  "lv_format2int name =
     (case name of format0 \<Rightarrow> 0 | sparse \<Rightarrow> 1 | format0_tiny \<Rightarrow> 2 | sparse_tiny \<Rightarrow> 3)"

text \<open>
  \<open>collect_format0_data\<close>: for every code from \<open>min_code\<close> to \<open>max_code\<close>,
  \<open>glyph_id = f.glyph_id[code] || 0\<close> and \<open>glyph_id ? glyph_id - start_glyph_id : 0\<close>.
\<close>

definition collect_format0_data ::
  "cbinfont \<Rightarrow> nat \<Rightarrow> nat \<Rightarrow> nat option \<Rightarrow> int option list" where
  "collect_format0_data f min_code max_code start_glyph_id =
     map (\<lambda>c. let gid = (case glyph_id f c of None \<Rightarrow> 0 | Some i \<Rightarrow> i)
               in if gid \<noteq> 0 then sub_num (Some gid) start_glyph_id else Some 0)
         [min_code..<Suc max_code]"

text \<open>\<open>new Uint8Array(d)\<close> and \<open>new Uint16Array(d)\<close> as bytes: each number modulo 256, or modulo
  65536 in two bytes, low byte first.\<close>

definition uint8_bytes :: "int option list \<Rightarrow> byte list" where
  "uint8_bytes d = concat (map (\<lambda>x. le_bytes 1 (stored_num x)) d)"

definition uint16_bytes :: "int option list \<Rightarrow> byte list" where
  "uint16_bytes d = concat (map (\<lambda>x. le_bytes 2 (stored_num x)) d)"

text \<open>
  The loop of \<open>collect_sparse_data\<close> over the codes still to do, with the lists built so
  far. A comparison with \<open>NaN\<close> is false.
\<close>

fun sparse_loop ::
  "cbinfont \<Rightarrow> nat \<Rightarrow> nat option \<Rightarrow> nat list \<Rightarrow> int option list \<Rightarrow> int option list
   \<Rightarrow> error + int option list \<times> int option list" where
  "sparse_loop f first start_glyph_id [] codepoints_list ids_list = Inr (codepoints_list, ids_list)"
| "sparse_loop f first start_glyph_id (c # cs) codepoints_list ids_list =
     (case glyphByCode f c of
        None \<Rightarrow> Inl TypeError
      | Some g \<Rightarrow>
          (let code_delta = int c - int first;
               id_delta = sub_num (glyph_id f (code g)) start_glyph_id
           in if code_delta < 0 \<or> code_delta > 65535
              then Inl (Error ''Codepoint delta out of range'')
              else if (case id_delta of None \<Rightarrow> False | Some v \<Rightarrow> v < 0 \<or> v > 65535)
              then Inl (Error ''Glyph ID delta out of range'')
              else sparse_loop f first start_glyph_id cs
                     (codepoints_list @ [Some code_delta]) (ids_list @ [id_delta])))"

definition collect_sparse_data ::
  "cbinfont \<Rightarrow> nat list \<Rightarrow> nat option \<Rightarrow> error + int option list \<times> int option list" where
  "collect_sparse_data f codepoints start_glyph_id =
     (case codepoints of
        [] \<Rightarrow> Inr ([], [])
      | first # _ \<Rightarrow> sparse_loop f first start_glyph_id codepoints [] [])"

record cmap_state =
  cmaps_view :: "byte list"
  total_data_offset :: nat
  arr_list :: "byte list list"
  idx :: nat

text \<open>
  What one round of the loop of \<open>CmapTable.toCBin\<close> computes before it writes the head:
  \<open>has_charcodes\<close>, \<open>has_ids\<close>, \<open>entries_count\<close>, \<open>unicode_ptr\<close>, \<open>glyph_ptr\<close>.
\<close>

definition cmap_payload ::
  "cbinfont \<Rightarrow> cmap_format \<Rightarrow> nat list \<Rightarrow> nat \<Rightarrow> nat \<Rightarrow> nat option
   \<Rightarrow> error + bool \<times> bool \<times> nat \<times> byte list \<times> byte list" where
  "cmap_payload f fmt codepoints min_code max_code start_glyph_id =
     (case fmt of
        format0_tiny \<Rightarrow> Inr (False, False, 0, [], [])
      | format0 \<Rightarrow>
          (let d = collect_format0_data f min_code max_code start_glyph_id
           in Inr (False, True, length d, [], balign4 (uint8_bytes d)))
      | sparse_tiny \<Rightarrow>
          bindE (collect_sparse_data f codepoints start_glyph_id) (\<lambda>d.
            Inr (True, False, length (fst d), balign4 (uint16_bytes (fst d)), []))
      | sparse \<Rightarrow>
          bindE (collect_sparse_data f codepoints start_glyph_id) (\<lambda>d.
            Inr (True, True, length (fst d), balign4 (uint16_bytes (fst d)),
                 balign4 (uint16_bytes (snd d)))))"

definition cmap_size :: "nat \<Rightarrow> nat" where
  "cmap_size psize = 12 + psize * 2 + (if psize = 4 then 0 else 4)"

text \<open>
  One round of the loop. \<open>codepoints[0]\<close> of an empty list is \<open>undefined\<close>, no glyph has that
  code, and \<open>g.code\<close> raises.
\<close>

definition cmap_round ::
  "cbinfont \<Rightarrow> nat \<Rightarrow> cmap_state \<Rightarrow> cmap_format \<times> nat list \<Rightarrow> error + cmap_state" where
  "cmap_round f psize st sub =
     (case snd sub of
        [] \<Rightarrow> Inl TypeError
      | min_code # _ \<Rightarrow>
          (case glyphByCode f min_code of
             None \<Rightarrow> Inl TypeError
           | Some g \<Rightarrow>
               (let start_glyph_id = glyph_id f (code g);
                    max_code = last (snd sub)
                in bindE (cmap_payload f (fst sub) (snd sub) min_code max_code start_glyph_id)
                   (\<lambda>(has_charcodes, has_ids, entries_count, unicode_ptr, glyph_ptr).
                      (let ofs = idx st * cmap_size psize;
                           t1 = total_data_offset st + length unicode_ptr;
                           t2 = t1 + length glyph_ptr
                       in
                       bindE (setUint 4 (cmaps_view st) ofs (int min_code)) (\<lambda>v1.
                       bindE (setUint 2 v1 (ofs + 4) (int max_code - int min_code + 1)) (\<lambda>v2.
                       bindE (setUint 2 v2 (ofs + 4 + 2) (stored_num (nat_num start_glyph_id))) (\<lambda>v3.
                       bindE (writePTR psize v3
                                (if has_charcodes then int (total_data_offset st) else 0)
                                (ofs + 4 + 2 + 2)) (\<lambda>v4.
                       bindE (writePTR psize v4 (if has_ids then int t1 else 0)
                                (ofs + 4 + 2 + 2 + psize)) (\<lambda>v5.
                       bindE (setUint 2 v5 (ofs + 4 + 2 + 2 + psize + psize) (int entries_count)) (\<lambda>v6.
                       bindE (setUint 1 v6 (ofs + 4 + 2 + 2 + psize + psize + 2)
                                (lv_format2int (fst sub))) (\<lambda>v7.
                       Inr \<lparr>cmaps_view = v7, total_data_offset = t2,
                            arr_list = arr_list st @ [unicode_ptr, glyph_ptr],
                            idx = idx st + 1\<rparr>))))))))))))"

fun cmap_rounds ::
  "cbinfont \<Rightarrow> nat \<Rightarrow> (cmap_format \<times> nat list) list \<Rightarrow> cmap_state \<Rightarrow> error + cmap_state" where
  "cmap_rounds f psize [] st = Inr st"
| "cmap_rounds f psize (sub # subs) st =
     bindE (cmap_round f psize st sub) (\<lambda>st'. cmap_rounds f psize subs st')"

definition cmap_toCBin :: "planner \<Rightarrow> cbinfont \<Rightarrow> nat \<Rightarrow> error + byte list" where
  "cmap_toCBin cmap_build_subtables f psize =
     (case glyphs (src f) of
        None \<Rightarrow> Inr []
      | Some gs \<Rightarrow>
          if length gs = 0 then Inr []
          else
            (let subtables_plan = cmap_build_subtables (map code gs);
                 cmaps_buf = replicate (length subtables_plan * cmap_size psize) 0
             in bindE (cmap_rounds f psize subtables_plan
                         \<lparr>cmaps_view = cmaps_buf, total_data_offset = length cmaps_buf,
                          arr_list = [], idx = 0\<rparr>)
                  (\<lambda>st. Inr (concat (cmaps_view st # arr_list st)))))"

definition getMapNumber :: "planner \<Rightarrow> cbinfont \<Rightarrow> nat" where
  "getMapNumber cmap_build_subtables f =
     (case glyphs (src f) of
        None \<Rightarrow> 0
      | Some gs \<Rightarrow> if length gs = 0 then 0 else length (cmap_build_subtables (map code gs)))"

subsection \<open>The font as a whole\<close>

text \<open>
  \<open>CBinFont.toCBin\<close>. The kerning table is empty (\<open>KernTable.toCBin\<close> returns no bytes and
  \<open>kern_ref\<close> gives scale 0, \<open>'NULL'\<close>, classes 0). The bit operators work on 32-bit integers;
  the head's fields are small numbers.
\<close>

definition font_toCBin :: "planner \<Rightarrow> cbinfont \<Rightarrow> error + byte list" where
  "font_toCBin cmap_build_subtables f =
     bindE (glyf_toCBin f) (\<lambda>(bitmap_buf, glyph_dsc_buf).
     bindE (cmap_toCBin cmap_build_subtables f ptr_size) (\<lambda>cmaps_buf.
       (let kern_buf = [] :: byte list;
            sz_font = 12 + ptr_size * 6 + (if ptr_size = 4 then 0 else 4);
            sz_font_dsc = 8 + ptr_size * 4;
            head_buf = replicate (sz_font + sz_font_dsc) 0;
            p3 = ptr_size * 3;
            p4 = p3 + 4 + 4 + 1 + 1 + 1 + 1 + (if ptr_size = 4 then 0 else 4);
            p5 = p4 + ptr_size * 3;
            p6 = p5 + ptr_size * 4
        in
        bindE (writePTR ptr_size head_buf 0 0) (\<lambda>h1.
        bindE (writePTR ptr_size h1 0 ptr_size) (\<lambda>h2.
        bindE (writePTR ptr_size h2 0 (ptr_size * 2)) (\<lambda>h3.
        bindE (setUint 4 h3 p3 (ascent (src f) - descent (src f))) (\<lambda>h4.
        bindE (setUint 4 h4 (p3 + 4) (- descent (src f))) (\<lambda>h5.
        bindE (setUint 1 h5 (p3 + 4 + 4) (subpixels_mode (src f))) (\<lambda>h6.
        bindE (setUint 1 h6 (p3 + 4 + 4 + 1) (underlinePosition (src f))) (\<lambda>h7.
        bindE (setUint 1 h7 (p3 + 4 + 4 + 1 + 1) (underlineThickness (src f))) (\<lambda>h8.
        bindE (writePTR ptr_size h8 (int sz_font) p4) (\<lambda>h9.
        bindE (writePTR ptr_size h9 0 (p4 + ptr_size)) (\<lambda>h10.
        bindE (writePTR ptr_size h10 0 (p4 + ptr_size * 2)) (\<lambda>h11.
        bindE (writePTR ptr_size h11 (int (sz_font_dsc + length kern_buf)) p5) (\<lambda>h12.
        bindE (writePTR ptr_size h12
                 (int (sz_font_dsc + length kern_buf + length bitmap_buf)) (p5 + ptr_size)) (\<lambda>h13.
        bindE (writePTR ptr_size h13
                 (int (sz_font_dsc + length kern_buf + length bitmap_buf + length glyph_dsc_buf))
                 (p5 + ptr_size * 2)) (\<lambda>h14.
        bindE (writePTR ptr_size h14 0 (p5 + ptr_size * 3)) (\<lambda>h15.
        bindE (setUint 2 h15 p6 0) (\<lambda>h16.
        bindE (setUint 2 h16 (p6 + 2)
                 (int (getMapNumber cmap_build_subtables f
                       OR push_bit 9 (bpp (opts f))
                       OR push_bit (9 + 4) (0 :: nat)
                       OR push_bit (9 + 4 + 1) (getCompressionCode (opts f))))) (\<lambda>h17.
        Inr (concat [h17, kern_buf, bitmap_buf, glyph_dsc_buf, cmaps_buf])))))))))))))))))))))"

definition or_empty_name :: "string option \<Rightarrow> string" where
  "or_empty_name x = (case x of None \<Rightarrow> [] | Some s \<Rightarrow> s)"

text \<open>\<open>write_cbin\<close> (CBinWriter.js): the output name is required, then the font is built and
  encoded.\<close>

definition output_required_message :: string where
  "output_required_message =
     ''Output is required for '' @ [CHR 0x22] @ ''cbin'' @ [CHR 0x22] @ '' writer''"

definition write_cbin :: "planner \<Rightarrow> args \<Rightarrow> fontData \<Rightarrow> error + string \<times> byte list" where
  "write_cbin cmap_build_subtables options fontData =
     (if output_name options = None \<or> output_name options = Some []
      then Inl (AppError output_required_message)
      else
        bindE (CBinFont_new fontData options) (\<lambda>font.
        bindE (font_toCBin cmap_build_subtables font) (\<lambda>result.
        Inr (or_empty_name (output_name options), result))))"

subsection \<open>Descriptions of the glyph table and concrete fonts\<close>

text \<open>The 16-byte record of one glyph, and the entries \<open>lv_compile\<close> computes for a list of
  glyphs (the bitmap, the sum of the lengths of the bitmaps before it, the glyph).\<close>

definition glyph_record :: "nat \<Rightarrow> glyph \<Rightarrow> byte list" where
  "glyph_record off g =
     le_bytes 4 (int off) @ le_bytes 4 (round_q4 (advanceWidth g))
     @ le_bytes 2 (int (bbox_width g)) @ le_bytes 2 (int (bbox_height g))
     @ le_bytes 2 (bbox_x g) @ le_bytes 2 (bbox_y g)"

definition bitmap_offset :: "args \<Rightarrow> glyph list \<Rightarrow> nat \<Rightarrow> nat" where
  "bitmap_offset options gs k = (\<Sum>j<k. length (lv_bitmap options (gs ! j)))"

fun lv_entries :: "args \<Rightarrow> glyph list \<Rightarrow> nat \<Rightarrow> lv_entry list" where
  "lv_entries options [] off = []"
| "lv_entries options (g # gs) off =
     \<lparr>lv_bin = lv_bitmap options g, lv_offset = off, lv_glyph = g\<rparr>
     # lv_entries options gs (off + length (lv_bitmap options g))"

definition example_glyph :: "nat \<Rightarrow> glyph" where
  "example_glyph c =
     \<lparr>code = c, advanceWidth = 17 / 2, bbox_x = - 1, bbox_y = 2, bbox_width = 2,
      bbox_height = 1, pixels = [[255, 128]]\<rparr>"

definition example_font :: "nat list \<Rightarrow> fontData" where
  "example_font codes =
     \<lparr>glyphs = Some (map example_glyph codes), ascent = 10, descent = - 3,
      subpixels_mode = 0, underlinePosition = 0, underlineThickness = 0\<rparr>"

definition example_args :: args where
  "example_args = \<lparr>bpp = 4, no_compress = True, no_prefilter = False, output_name = Some ''font''\<rparr>"

definition example_planner :: planner where
  "example_planner codes = [(format0, codes)]"

definition example_cbinfont :: "nat list \<Rightarrow> cbinfont" where
  "example_cbinfont codes =
     \<lparr>src = example_font codes, opts = example_args,
      glyph_id = buildGlyphIdMap (Some (map example_glyph codes))\<rparr>"
subsection \<open>Auxiliary notions for the font proofs\<close>

text \<open>
  A result that is not an \<open>AppError\<close>; the fold of \<open>buildGlyphIdMap\<close> from a given map and a
  given first index; the descriptor record of an entry of \<open>lv_data\<close>.
\<close>

definition no_app_error :: "error + 'a \<Rightarrow> bool" where
  "no_app_error r = (case r of Inl (AppError m) \<Rightarrow> False | _ \<Rightarrow> True)"

definition glyph_id_fold :: "(nat \<rightharpoonup> nat) \<Rightarrow> glyph list \<Rightarrow> nat \<Rightarrow> (nat \<rightharpoonup> nat)" where
  "glyph_id_fold m l k = foldl (\<lambda>m (g, index). m(code g \<mapsto> index + 1)) m (zip l [k..<k + length l])"

definition entry_record :: "lv_entry \<Rightarrow> byte list" where
  "entry_record d = glyph_record (lv_offset d) (lv_glyph d)"
subsection \<open>Descriptions of a cmap subtable\<close>

text \<open>
  The 20-byte head of a subtable (pointers of 4 bytes), the byte a full Format0 subtable
  stores for a code, and the codes of a font of 300 glyphs.
\<close>

definition cmap_head ::
  "nat \<Rightarrow> nat \<Rightarrow> int \<Rightarrow> int \<Rightarrow> int \<Rightarrow> nat \<Rightarrow> cmap_format \<Rightarrow> byte list" where
  "cmap_head min_code max_code start p_unicode p_glyph cnt fmt =
     le_bytes 4 (int min_code) @ le_bytes 2 (int max_code - int min_code + 1) @ le_bytes 2 start
     @ le_bytes 4 p_unicode @ le_bytes 4 p_glyph @ le_bytes 2 (int cnt)
     @ le_bytes 1 (lv_format2int fmt) @ [0]"

definition format0_byte :: "cbinfont \<Rightarrow> nat \<Rightarrow> nat \<Rightarrow> byte" where
  "format0_byte f start c =
     (case glyph_id f c of
        None \<Rightarrow> 0
      | Some i \<Rightarrow> if i = 0 then 0 else of_int ((int i - int start) mod 256))"

definition wide_codes :: "nat list" where
  "wide_codes = [32..<332]"
section \<open>WakenetModelPacker\<close>

text \<open>
  \<open>this.models\<close> is a \<open>Map\<close> from model names to \<open>Map\<close>s from file names to file data: a list
  of pairs in insertion order. \<open>Map.set\<close> replaces the value of a key that is there, at its
  place, and appends a new key.
\<close>

type_synonym model_files = "(jsstring \<times> byte list) list"
type_synonym models = "(jsstring \<times> model_files) list"

fun map_set :: "('k \<times> 'v) list \<Rightarrow> 'k \<Rightarrow> 'v \<Rightarrow> ('k \<times> 'v) list" where
  "map_set [] k v = [(k, v)]"
| "map_set ((k', v') # kvs) k v =
     (if k' = k then (k, v) # kvs else (k', v') # map_set kvs k v)"

definition addModelFile :: "models \<Rightarrow> jsstring \<Rightarrow> jsstring \<Rightarrow> byte list \<Rightarrow> models" where
  "addModelFile ms modelName fileName fileData =
     (let ms' = (if map_of ms modelName = None then map_set ms modelName [] else ms)
      in case map_of ms' modelName of
           None \<Rightarrow> ms'
         | Some files \<Rightarrow> map_set ms' modelName (map_set files fileName fileData))"

text \<open>
  \<open>packString\<close> of the model packer: \<open>bytes[i] = string.charCodeAt(i) & 0xFF\<close> for the first
  \<open>maxLen\<close> code units; the other bytes stay 0.
\<close>

definition charCodeAt :: "jsstring \<Rightarrow> nat \<Rightarrow> 16 word" where
  "charCodeAt s i = (if i < length s then s ! i else 0)"   \<comment> \<open>\<open>NaN & 0xFF\<close> is 0\<close>

function charcode_loop :: "jsstring \<Rightarrow> byte list \<Rightarrow> nat \<Rightarrow> nat \<Rightarrow> byte list" where
  "charcode_loop s bytes i copyLen =
     (if i < copyLen
      then charcode_loop s (store_at bytes i (ucast (charCodeAt s i AND 0xFF))) (i + 1) copyLen
      else bytes)"
  by pat_completeness auto
termination
  by (relation "measure (\<lambda>(s, bytes, i, copyLen). copyLen - i)") auto

definition wakenet_packString :: "jsstring \<Rightarrow> nat \<Rightarrow> byte list" where
  "wakenet_packString s maxLen =
     (let bytes = replicate maxLen 0;
          copyLen = min (length s) maxLen
      in charcode_loop s bytes 0 copyLen)"

text \<open>
  The packer's own \<open>packUint32\<close> has the same body as the one of the container packer, so
  \<^const>\<open>packUint32\<close> stands for both. The message of the error is given as its UTF-8 bytes.
\<close>

definition no_models_message :: string where
  "no_models_message =
     map char_of [230, 178, 161, 230, 156, 137, 230, 168, 161, 229, 158, 139, 230, 149, 176,
                  230, 141, 174, 229, 143, 175, 230, 137, 147, 229, 140, 133 :: nat]"

text \<open>The sort of the entries of a \<open>Map\<close> by their keys: \<open>a[0].localeCompare(b[0])\<close>.\<close>

definition compare_keys :: "host \<Rightarrow> jsstring \<times> 'v \<Rightarrow> jsstring \<times> 'v \<Rightarrow> int" where
  "compare_keys h a b = localeCompare h (fst a) (fst b)"

definition modelDataList :: "host \<Rightarrow> models \<Rightarrow> models" where
  "modelDataList h ms =
     map (\<lambda>(modelName, files). (modelName, array_sort (compare_keys h) files))
         (array_sort (compare_keys h) ms)"

definition headerLen :: "models \<Rightarrow> nat" where
  "headerLen mdl =
     foldl (\<lambda>len model. len + (32 + 4) + length (snd model) * (32 + 4 + 4)) 4 mdl"

text \<open>The sum of the sizes of all files, taken over \<open>this.models.values()\<close>.\<close>

definition totalDataSize :: "models \<Rightarrow> nat" where
  "totalDataSize ms =
     foldl (\<lambda>total files. total + foldl (\<lambda>fileTotal fileData. fileTotal + length fileData) 0
                                       (map snd files))
           0 (map snd ms)"

text \<open>
  The two loops that write the heads, with the output, the write position and
  \<open>dataOffset\<close>; then the two loops that write the file data.
\<close>

fun file_info_loop ::
  "model_files \<Rightarrow> byte list \<Rightarrow> nat \<Rightarrow> nat \<Rightarrow> error + byte list \<times> nat \<times> nat" where
  "file_info_loop [] out pos dataOffset = Inr (out, pos, dataOffset)"
| "file_info_loop ((fileName, fileData) # rest) out pos dataOffset =
     bindE (set_at out (wakenet_packString fileName 32) pos) (\<lambda>o1.
     bindE (set_at o1 (packUint32 dataOffset) (pos + 32)) (\<lambda>o2.
     bindE (set_at o2 (packUint32 (length fileData)) (pos + 32 + 4)) (\<lambda>o3.
     file_info_loop rest o3 (pos + 32 + 4 + 4) (dataOffset + length fileData))))"

fun model_info_loop ::
  "models \<Rightarrow> byte list \<Rightarrow> nat \<Rightarrow> nat \<Rightarrow> error + byte list \<times> nat \<times> nat" where
  "model_info_loop [] out pos dataOffset = Inr (out, pos, dataOffset)"
| "model_info_loop ((modelName, files) # rest) out pos dataOffset =
     bindE (set_at out (wakenet_packString modelName 32) pos) (\<lambda>o1.
     bindE (set_at o1 (packUint32 (length files)) (pos + 32)) (\<lambda>o2.
     bindE (file_info_loop files o2 (pos + 32 + 4) dataOffset) (\<lambda>(o3, pos', dataOffset').
     model_info_loop rest o3 pos' dataOffset')))"

fun file_data_loop :: "model_files \<Rightarrow> byte list \<Rightarrow> nat \<Rightarrow> error + byte list \<times> nat" where
  "file_data_loop [] out pos = Inr (out, pos)"
| "file_data_loop ((fileName, fileData) # rest) out pos =
     bindE (set_at out fileData pos) (\<lambda>o1. file_data_loop rest o1 (pos + length fileData))"

fun model_data_loop :: "models \<Rightarrow> byte list \<Rightarrow> nat \<Rightarrow> error + byte list \<times> nat" where
  "model_data_loop [] out pos = Inr (out, pos)"
| "model_data_loop ((modelName, files) # rest) out pos =
     bindE (file_data_loop files out pos) (\<lambda>(o1, pos'). model_data_loop rest o1 pos')"

definition packModels :: "host \<Rightarrow> models \<Rightarrow> error + byte list" where
  "packModels h ms =
     (if length ms = 0 then Inl (Error no_models_message)
      else
        (let mdl = modelDataList h ms;
             modelNum = length ms;
             hl = headerLen mdl;
             totalSize = hl + totalDataSize ms
         in
         bindE (set_at (replicate totalSize 0) (packUint32 modelNum) 0) (\<lambda>o1.
         bindE (model_info_loop mdl o1 4 hl) (\<lambda>(o2, pos, dataOffset).
         bindE (model_data_loop mdl o2 pos) (\<lambda>(o3, pos'). Inr o3)))))"

subsection \<open>The layout of the packed models, and its reader\<close>

text \<open>
  The blob as a value: the count, the heads with the start offsets counted from a given
  first offset, the file data. And the reader the layout documents: it takes the count,
  walks the heads, and cuts each file out of the blob at its start offset.
\<close>

definition files_size :: "model_files \<Rightarrow> nat" where
  "files_size files = (\<Sum>fl\<leftarrow>files. length (snd fl))"

fun file_infos_bytes :: "model_files \<Rightarrow> nat \<Rightarrow> byte list" where
  "file_infos_bytes [] start = []"
| "file_infos_bytes ((fileName, fileData) # rest) start =
     wakenet_packString fileName 32 @ packUint32 start @ packUint32 (length fileData)
     @ file_infos_bytes rest (start + length fileData)"

fun model_infos_bytes :: "models \<Rightarrow> nat \<Rightarrow> byte list" where
  "model_infos_bytes [] start = []"
| "model_infos_bytes ((modelName, files) # rest) start =
     wakenet_packString modelName 32 @ packUint32 (length files) @ file_infos_bytes files start
     @ model_infos_bytes rest (start + files_size files)"

definition models_data :: "models \<Rightarrow> byte list" where
  "models_data mdl = concat (map (\<lambda>model. concat (map snd (snd model))) mdl)"

definition heads_size :: "models \<Rightarrow> nat" where
  "heads_size mdl = (\<Sum>model\<leftarrow>mdl. 36 + 40 * length (snd model))"

definition packed_models :: "host \<Rightarrow> models \<Rightarrow> byte list" where
  "packed_models h ms =
     packUint32 (length ms)
     @ model_infos_bytes (modelDataList h ms) (4 + heads_size (modelDataList h ms))
     @ models_data (modelDataList h ms)"

fun read_files :: "byte list \<Rightarrow> nat \<Rightarrow> nat \<Rightarrow> (byte list \<times> byte list) list" where
  "read_files blob pos 0 = []"
| "read_files blob pos (Suc n) =
     (slice blob pos 32,
      slice blob (le32 (slice blob (pos + 32) 4)) (le32 (slice blob (pos + 36) 4)))
     # read_files blob (pos + 40) n"

fun read_models ::
  "byte list \<Rightarrow> nat \<Rightarrow> nat \<Rightarrow> (byte list \<times> (byte list \<times> byte list) list) list" where
  "read_models blob pos 0 = []"
| "read_models blob pos (Suc n) =
     (slice blob pos 32, read_files blob (pos + 36) (le32 (slice blob (pos + 32) 4)))
     # read_models blob (pos + 36 + 40 * le32 (slice blob (pos + 32) 4)) n"

definition unpack_models :: "byte list \<Rightarrow> (byte list \<times> (byte list \<times> byte list) list) list" where
  "unpack_models blob = read_models blob 4 (le32 (slice blob 0 4))"

text \<open>What the reader should find: the packed names with the files' bytes.\<close>

definition packed_view :: "models \<Rightarrow> (byte list \<times> (byte list \<times> byte list) list) list" where
  "packed_view mdl =
     map (\<lambda>model. (wakenet_packString (fst model) 32,
                    map (\<lambda>fl. (wakenet_packString (fst fl) 32, snd fl)) (snd model))) mdl"

text \<open>The name a packed field stands for, when the name has at most 32 code units, all
  below 256 and none 0: the bytes before the first 0.\<close>

definition field_name :: "byte list \<Rightarrow> jsstring" where
  "field_name bytes = map ucast (takeWhile (\<lambda>b. b \<noteq> 0) bytes)"

definition two_models :: models where
  "two_models =
     addModelFile (addModelFile (addModelFile
     (addModelFile (addModelFile (addModelFile []
        (ascii ''wn9_b'') (ascii ''wn9_index'') [1, 2])
        (ascii ''wn9_b'') (ascii ''wn9_data'') [3, 4, 5])
        (ascii ''wn9_b'') (ascii ''_MODEL_INFO_'') [6])
        (ascii ''wn9_a'') (ascii ''wn9_index'') [])
        (ascii ''wn9_a'') (ascii ''wn9_data'') [7, 8])
        (ascii ''wn9_a'') (ascii ''_MODEL_INFO_'') [9, 10, 11, 12]"

text \<open>The names that occur, the names a field can hold, and the reader's result with the
  names taken out of their fields.\<close>

definition model_names :: "models \<Rightarrow> jsstring set" where
  "model_names ms = fst ` set ms \<union> (\<Union>model\<in>set ms. fst ` set (snd model))"

definition names_fit :: "models \<Rightarrow> bool" where
  "names_fit ms = (\<forall>n\<in>model_names ms. length n \<le> 32 \<and> (\<forall>c\<in>set n. c \<noteq> 0 \<and> c < 256))"

definition named_view ::
  "(byte list \<times> (byte list \<times> byte list) list) list \<Rightarrow> models" where
  "named_view v =
     map (\<lambda>model. (field_name (fst model), map (\<lambda>fl. (field_name (fst fl), snd fl)) (snd model))) v"

definition long_name :: "nat \<Rightarrow> jsstring" where
  "long_name n = replicate n 0x61"
section \<open>Proofs: SpiffsGenerator\<close>

lemma bindE_Inl [simp]: "bindE (Inl e) f = Inl e"
  by (simp add: bindE_def)

lemma bindE_Inr [simp]: "bindE (Inr x) f = f x"
  by (simp add: bindE_def)

lemma set_at_fill:
  "length pre = off \<Longrightarrow> length mid = length srcb \<Longrightarrow>
   set_at (pre @ mid @ post) srcb off = Inr (pre @ srcb @ post)"
  by (simp add: set_at_def)

lemma set_at_all: "length buf = length srcb \<Longrightarrow> set_at buf srcb 0 = Inr srcb"
  by (simp add: set_at_def)

lemma set_at_zeros:
  "length pre = off \<Longrightarrow> length srcb \<le> n \<Longrightarrow>
   set_at (pre @ replicate n z) srcb off = Inr (pre @ srcb @ replicate (n - length srcb) z)"
  by (simp add: set_at_def)

lemma spiffs_packString_eq: "spiffs_packString s n = Inr (name32 s n)"
  by (simp add: spiffs_packString_def name32_def set_at_def Let_def min_def)

lemma length_name32 [simp]: "length (name32 s n) = n"
  by (simp add: name32_def)

lemma length_packUint32 [simp]: "length (packUint32 v) = 4"
  by (simp add: packUint32_def)

lemma length_packUint16 [simp]: "length (packUint16 v) = 2"
  by (simp add: packUint16_def)

lemma length_mmap_entry [simp]: "length (mmap_entry fi) = 44"
  by (simp add: mmap_entry_def)

lemma mmap_step:
  assumes n: "44 \<le> n" and off: "length pre = off"
  shows "mmap_loop (fi # rest) (pre @ replicate n 0) off
       = mmap_loop rest ((pre @ mmap_entry fi) @ replicate (n - 44) 0) (off + 44)"
proof -
  define nm where "nm = name32 (filename fi) 32"
  define p1 where "p1 = pre @ nm"
  define p2 where "p2 = p1 @ packUint32 (size_f fi)"
  define p3 where "p3 = p2 @ packUint32 (offset fi)"
  define p4 where "p4 = p3 @ packUint16 (width fi)"
  define p5 where "p5 = p4 @ packUint16 (height fi)"
  have l1: "length p1 = off + 32" by (simp add: p1_def nm_def off)
  have l2: "length p2 = off + 32 + 4" by (simp add: p2_def l1)
  have l3: "length p3 = off + 32 + 4 + 4" by (simp add: p3_def l2)
  have l4: "length p4 = off + 32 + 4 + 4 + 2" by (simp add: p4_def l3)
  have s1: "set_at (pre @ replicate n 0) nm off = Inr (p1 @ replicate (n - 32) 0)"
    using n off by (simp add: set_at_zeros p1_def nm_def)
  have s2: "set_at (p1 @ replicate (n - 32) 0) (packUint32 (size_f fi)) (off + 32)
          = Inr (p2 @ replicate (n - 36) 0)"
    using n l1 by (simp add: set_at_zeros p2_def)
  have s3: "set_at (p2 @ replicate (n - 36) 0) (packUint32 (offset fi)) (off + 32 + 4)
          = Inr (p3 @ replicate (n - 40) 0)"
    using n l2 by (simp add: set_at_zeros p3_def)
  have s4: "set_at (p3 @ replicate (n - 40) 0) (packUint16 (width fi)) (off + 32 + 4 + 4)
          = Inr (p4 @ replicate (n - 42) 0)"
    using n l3 by (simp add: set_at_zeros p4_def)
  have s5: "set_at (p4 @ replicate (n - 42) 0) (packUint16 (height fi)) (off + 32 + 4 + 4 + 2)
          = Inr (p5 @ replicate (n - 44) 0)"
    using n l4 by (simp add: set_at_zeros p5_def)
  have p5: "p5 = pre @ mmap_entry fi"
    by (simp add: p5_def p4_def p3_def p2_def p1_def nm_def mmap_entry_def)
  have e: "off + 32 + 4 + 4 + 2 + 2 = off + 44" by simp
  show ?thesis
    by (simp only: mmap_loop.simps spiffs_packString_eq bindE_Inr nm_def [symmetric]
        s1 s2 s3 s4 s5 p5 e)
qed

lemma mmap_loop_eq:
  "44 * length fis \<le> n \<Longrightarrow> length pre = off \<Longrightarrow>
   mmap_loop fis (pre @ replicate n 0) off
     = Inr (pre @ concat (map mmap_entry fis) @ replicate (n - 44 * length fis) 0)"
proof (induction fis arbitrary: pre n off)
  case Nil
  then show ?case by simp
next
  case (Cons fi fis)
  have n: "44 \<le> n" using Cons.prems by simp
  have r: "44 * length fis \<le> n - 44" using Cons.prems by simp
  have l: "length (pre @ mmap_entry fi) = off + 44" using Cons.prems by simp
  have "mmap_loop (fi # fis) (pre @ replicate n 0) off
      = mmap_loop fis ((pre @ mmap_entry fi) @ replicate (n - 44) 0) (off + 44)"
    by (rule mmap_step [OF n Cons.prems(2)])
  also have "\<dots> = Inr ((pre @ mmap_entry fi) @ concat (map mmap_entry fis)
      @ replicate (n - 44 - 44 * length fis) 0)"
    by (rule Cons.IH [OF r l])
  also have "\<dots> = Inr (pre @ concat (map mmap_entry (fi # fis))
      @ replicate (n - 44 * length (fi # fis)) 0)"
    by simp
  finally show ?case .
qed

lemma store_at_zeros:
  "length pre = off \<Longrightarrow> 0 < n \<Longrightarrow>
   store_at (pre @ replicate n z) off v = (pre @ [v]) @ replicate (n - 1) z"
  by (cases n) (simp_all add: store_at_def list_update_append)

lemma merge_step:
  assumes n: "2 + length (data fi) \<le> n" and sz: "size_f fi = length (data fi)"
    and off: "length pre = off"
  shows "merge_loop (fi # rest) (pre @ replicate n 0) off
       = merge_loop rest ((pre @ marked fi) @ replicate (n - (2 + length (data fi))) 0)
           (off + (2 + length (data fi)))"
proof -
  define p1 where "p1 = pre @ [0x5A :: byte]"
  define p2 where "p2 = p1 @ [0x5A :: byte]"
  have l1: "length p1 = off + 1" by (simp add: p1_def off)
  have l2: "length p2 = off + 2" by (simp add: p2_def l1)
  have s1: "store_at (pre @ replicate n 0) off 0x5A = p1 @ replicate (n - 1) 0"
    using n off by (simp add: store_at_zeros p1_def)
  have s2: "store_at (p1 @ replicate (n - 1) 0) (off + 1) 0x5A = p2 @ replicate (n - 1 - 1) 0"
    using n l1 by (simp add: store_at_zeros p2_def)
  have s3: "set_at (p2 @ replicate (n - 1 - 1) 0) (data fi) (off + 2)
          = Inr ((p2 @ data fi) @ replicate (n - 1 - 1 - length (data fi)) 0)"
    using n l2 by (simp add: set_at_zeros)
  have p: "p2 @ data fi = pre @ marked fi"
    by (simp add: p2_def p1_def marked_def)
  have e: "n - 1 - 1 - length (data fi) = n - (2 + length (data fi))"
    "off + 2 + length (data fi) = off + (2 + length (data fi))" by simp_all
  show ?thesis
    by (simp only: merge_loop.simps Let_def s1 s2 s3 bindE_Inr sz p e)
qed

lemma merge_loop_eq:
  "(\<Sum>fi\<leftarrow>fis. 2 + length (data fi)) \<le> n \<Longrightarrow> list_all (\<lambda>fi. size_f fi = length (data fi)) fis \<Longrightarrow>
   length pre = off \<Longrightarrow>
   merge_loop fis (pre @ replicate n 0) off
     = Inr (pre @ concat (map marked fis) @ replicate (n - (\<Sum>fi\<leftarrow>fis. 2 + length (data fi))) 0)"
proof (induction fis arbitrary: pre n off)
  case Nil
  then show ?case by simp
next
  case (Cons fi fis)
  let ?k = "2 + length (data fi)"
  have n: "?k \<le> n" using Cons.prems(1) by simp
  have sz: "size_f fi = length (data fi)" using Cons.prems(2) by simp
  have r: "(\<Sum>fi\<leftarrow>fis. 2 + length (data fi)) \<le> n - ?k" using Cons.prems(1) by simp
  have a: "list_all (\<lambda>fi. size_f fi = length (data fi)) fis" using Cons.prems(2) by simp
  have l: "length (pre @ marked fi) = off + ?k" using Cons.prems(3) by (simp add: marked_def)
  have "merge_loop (fi # fis) (pre @ replicate n 0) off
      = merge_loop fis ((pre @ marked fi) @ replicate (n - ?k) 0) (off + ?k)"
    by (rule merge_step [OF n sz Cons.prems(3)])
  also have "\<dots> = Inr ((pre @ marked fi) @ concat (map marked fis)
      @ replicate (n - ?k - (\<Sum>fi\<leftarrow>fis. 2 + length (data fi))) 0)"
    by (rule Cons.IH [OF r a l])
  also have "\<dots> = Inr (pre @ concat (map marked (fi # fis))
      @ replicate (n - (\<Sum>fi\<leftarrow>fi # fis. 2 + length (data fi))) 0)"
    by simp
  finally show ?case .
qed

lemma info_loop_eq:
  "info_loop h fs acc m = (acc @ file_infos h fs m, m + (\<Sum>f\<leftarrow>fs. 2 + size_f f))"
  by (induction fs arbitrary: acc m) simp_all

lemma length_file_infos [simp]: "length (file_infos h fs m) = length fs"
  by (induction fs arbitrary: m) simp_all

lemma file_infos_sized:
  "list_all (\<lambda>f. size_f f = length (data f)) fs \<Longrightarrow>
   list_all (\<lambda>fi. size_f fi = length (data fi)) (file_infos h fs m)"
  by (induction fs arbitrary: m) simp_all

lemma file_infos_total:
  "list_all (\<lambda>f. size_f f = length (data f)) fs \<Longrightarrow>
   (\<Sum>fi\<leftarrow>file_infos h fs m. 2 + length (data fi)) = (\<Sum>f\<leftarrow>fs. 2 + size_f f)"
  by (induction fs arbitrary: m) simp_all

lemma mset_insert_by: "mset (insert_by cmp x xs) = add_mset x (mset xs)"
  by (induction xs) simp_all

lemma mset_array_sort: "mset (array_sort cmp xs) = mset xs"
  by (induction xs) (simp_all add: array_sort_def mset_insert_by)

lemma length_array_sort [simp]: "length (array_sort cmp xs) = length xs"
  using mset_array_sort [of cmp xs] by (metis size_mset)

lemma set_array_sort [simp]: "set (array_sort cmp xs) = set xs"
  using mset_array_sort [of cmp xs] by (metis set_mset_mset)

lemma length_concat_entries: "length (concat (map mmap_entry fis)) = 44 * length fis"
  by (induction fis) simp_all

lemma length_concat_marked:
  "length (concat (map marked fis)) = (\<Sum>fi\<leftarrow>fis. 2 + length (data fi))"
  by (induction fis) (simp_all add: marked_def)

lemma header_fill:
  assumes "length body = n"
  shows "bindE (set_at (replicate (4 + 4 + 4 + n) 0) (packUint32 a) 0) (\<lambda>f1.
         bindE (set_at f1 (packUint32 b) 4) (\<lambda>f2.
         bindE (set_at f2 (packUint32 c) (4 + 4)) (\<lambda>f3.
         set_at f3 body (4 + 4 + 4))))
       = Inr (packUint32 a @ packUint32 b @ packUint32 c @ body)"
proof -
  define p1 where "p1 = packUint32 a"
  define p2 where "p2 = p1 @ packUint32 b"
  define p3 where "p3 = p2 @ packUint32 c"
  have l1: "length p1 = 4" by (simp add: p1_def)
  have l2: "length p2 = 4 + 4" by (simp add: p2_def l1)
  have l3: "length p3 = 4 + 4 + 4" by (simp add: p3_def l2)
  have s1: "set_at (replicate (4 + 4 + 4 + n) 0) (packUint32 a) 0 = Inr (p1 @ replicate (8 + n) 0)"
    using set_at_zeros [of "[]" 0 "packUint32 a" "4 + 4 + 4 + n" 0] by (simp add: p1_def)
  have s2: "set_at (p1 @ replicate (8 + n) 0) (packUint32 b) 4 = Inr (p2 @ replicate (4 + n) 0)"
    using set_at_zeros [of p1 4 "packUint32 b" "8 + n" 0] l1 by (simp add: p2_def)
  have s3: "set_at (p2 @ replicate (4 + n) 0) (packUint32 c) (4 + 4) = Inr (p3 @ replicate n 0)"
    using set_at_zeros [of p2 "4 + 4" "packUint32 c" "4 + n" 0] l2 by (simp add: p3_def)
  have s4: "set_at (p3 @ replicate n 0) body (4 + 4 + 4) = Inr (p3 @ body)"
    using set_at_zeros [of p3 "4 + 4 + 4" body n 0] l3 assms by simp
  have p: "p3 @ body = packUint32 a @ packUint32 b @ packUint32 c @ body"
    by (simp add: p3_def p2_def p1_def)
  show ?thesis by (simp only: s1 s2 s3 s4 bindE_Inr p)
qed

lemma generate_eq:
  assumes ne: "files \<noteq> []" and sz: "list_all (\<lambda>f. size_f f = length (data f)) files"
  shows "generate h files = Inr (container h files)"
proof -
  let ?sorted = "sortFiles h files"
  let ?infos = "packed_infos h files"
  let ?total = "\<Sum>f\<leftarrow>?sorted. 2 + size_f f"
  let ?T = "table_bytes h files"
  let ?R = "region_bytes h files"
  have len: "length ?sorted = length files" by (simp add: sortFiles_def)
  have ssz: "list_all (\<lambda>f. size_f f = length (data f)) ?sorted"
    using sz by (simp add: list_all_iff sortFiles_def)
  have il1: "fst (info_loop h ?sorted [] 0) = ?infos"
    by (simp add: info_loop_eq packed_infos_def)
  have il2: "snd (info_loop h ?sorted [] 0) = ?total"
    by (simp add: info_loop_eq)
  have isz: "list_all (\<lambda>fi. size_f fi = length (data fi)) ?infos"
    unfolding packed_infos_def by (rule file_infos_sized [OF ssz])
  have itot: "(\<Sum>fi\<leftarrow>?infos. 2 + length (data fi)) = ?total"
    unfolding packed_infos_def by (rule file_infos_total [OF ssz])
  have lT: "length ?T = length files * (32 + 4 + 4 + 2 + 2)"
    by (simp add: table_bytes_def length_concat_entries packed_infos_def len)
  have lR: "length ?R = ?total"
    by (simp only: region_bytes_def length_concat_marked itot)
  have m: "mmap_loop ?infos (replicate (length files * (32 + 4 + 4 + 2 + 2)) 0) 0 = Inr ?T"
    using mmap_loop_eq [of ?infos "length files * (32 + 4 + 4 + 2 + 2)" "[]" 0]
    by (simp add: table_bytes_def packed_infos_def len)
  have g: "merge_loop ?infos (replicate ?total 0) 0 = Inr ?R"
    using merge_loop_eq [of ?infos ?total "[]" 0] isz itot
    by (simp add: region_bytes_def)
  have c1: "set_at (replicate (length files * (32 + 4 + 4 + 2 + 2) + ?total) 0) ?T 0
      = Inr (?T @ replicate ?total 0)"
    using set_at_zeros [of "[]" 0 ?T "length files * (32 + 4 + 4 + 2 + 2) + ?total" 0] lT
    by simp
  have c2: "set_at (?T @ replicate ?total 0) ?R (length files * (32 + 4 + 4 + 2 + 2)) = Inr (?T @ ?R)"
    using set_at_zeros [of ?T "length files * (32 + 4 + 4 + 2 + 2)" ?R ?total 0] lT lR
    by simp
  have nz: "length files \<noteq> 0" using ne by simp
  show ?thesis
    unfolding generate_def Let_def il1 il2 len
    by (simp only: nz if_False m g c1 c2 bindE_Inr header_fill [OF refl] container_def)
qed

lemma addFiles_snoc: "addFiles (es @ [(fname, d, ops)]) = addFile (addFiles es) fname d ops"
  by (simp add: addFiles_def)

lemma length_addFiles [simp]: "length (addFiles es) = length es"
  by (induction es rule: rev_induct) (auto simp: addFiles_snoc addFile_def addFiles_def)

lemma addFiles_sized: "list_all (\<lambda>f. size_f f = length (data f)) (addFiles es)"
  by (induction es rule: rev_induct) (auto simp: addFiles_snoc addFile_def addFiles_def)

lemma addFiles_nonempty: "es \<noteq> [] \<Longrightarrow> addFiles es \<noteq> []"
  using length_addFiles [of es] by (metis length_0_conv)

lemma generate_addFiles: "es \<noteq> [] \<Longrightarrow> generate h (addFiles es) = Inr (container h (addFiles es))"
  by (rule generate_eq [OF addFiles_nonempty addFiles_sized])

lemma sortFiles_sized:
  "list_all (\<lambda>f. size_f f = length (data f)) files \<Longrightarrow>
   list_all (\<lambda>f. size_f f = length (data f)) (sortFiles h files)"
  by (simp add: list_all_iff sortFiles_def)

lemma length_sortFiles [simp]: "length (sortFiles h files) = length files"
  by (simp add: sortFiles_def)

lemma length_packed_infos [simp]: "length (packed_infos h files) = length files"
  by (simp add: packed_infos_def)

subsection \<open>slices\<close>

lemma slice_append_left: "pos + len \<le> length xs \<Longrightarrow> slice (xs @ ys) pos len = slice xs pos len"
  by (simp add: slice_def)

lemma slice_append_right: "slice (xs @ ys) (length xs + pos) len = slice ys pos len"
  by (simp add: slice_def)

lemma slice_prefix: "slice (xs @ ys) 0 (length xs) = xs"
  by (simp add: slice_def)

lemma slice_slice: "b + len \<le> k \<Longrightarrow> slice (slice xs a k) b len = slice xs (a + b) len"
  by (simp add: slice_def drop_take min_def add.commute)

lemma concat_fixed_slice:
  "list_all (\<lambda>x. length x = k) xss \<Longrightarrow> i < length xss \<Longrightarrow>
   slice (concat xss) (k * i) k = xss ! i"
proof (induction xss arbitrary: i)
  case Nil
  then show ?case by simp
next
  case (Cons x xss)
  show ?case
  proof (cases i)
    case 0
    then show ?thesis using Cons.prems by (simp add: slice_def)
  next
    case (Suc j)
    have "slice (x @ concat xss) (length x + k * j) k = slice (concat xss) (k * j) k"
      by (rule slice_append_right)
    then show ?thesis using Cons Suc by (simp add: add.commute)
  qed
qed

lemma concat_drop_sum:
  "i \<le> length xss \<Longrightarrow> drop (\<Sum>j<i. length (xss ! j)) (concat xss) = concat (drop i xss)"
proof (induction xss arbitrary: i)
  case Nil
  then show ?case by simp
next
  case (Cons x xss)
  show ?case
  proof (cases i)
    case 0
    then show ?thesis by simp
  next
    case (Suc j)
    have "(\<Sum>l<Suc j. length ((x # xss) ! l)) = length x + (\<Sum>l<j. length (xss ! l))"
      unfolding sum.lessThan_Suc_shift by simp
    then show ?thesis using Cons Suc by simp
  qed
qed

lemma file_infos_nth:
  "i < length fs \<Longrightarrow>
   file_infos h fs m ! i =
     \<lparr>filename = filename (fs ! i), data = data (fs ! i), size_f = size_f (fs ! i),
      width = fst (resolve_dimensions h (fs ! i)), height = snd (resolve_dimensions h (fs ! i)),
      offset = m + (\<Sum>j<i. 2 + size_f (fs ! j))\<rparr>"
proof (induction fs arbitrary: i m)
  case Nil
  then show ?case by simp
next
  case (Cons f fs)
  show ?case
  proof (cases i)
    case 0
    then show ?thesis by simp
  next
    case (Suc k)
    have "(\<Sum>j<Suc k. 2 + size_f ((f # fs) ! j)) = (2 + size_f f) + (\<Sum>j<k. 2 + size_f (fs ! j))"
      unfolding sum.lessThan_Suc_shift by simp
    then show ?thesis using Cons Suc by simp
  qed
qed

lemma container_split:
  "container h files = (packUint32 (length files)
     @ packUint32 (computeChecksum (table_bytes h files @ region_bytes h files))
     @ packUint32 (length (table_bytes h files @ region_bytes h files)))
     @ table_bytes h files @ region_bytes h files"
  by (simp add: container_def)

lemma length_table_bytes [simp]: "length (table_bytes h files) = 44 * length files"
  by (simp add: table_bytes_def length_concat_entries)

lemma container_table: "slice (container h files) 12 (44 * length files) = table_bytes h files"
proof -
  let ?hd = "packUint32 (length files)
     @ packUint32 (computeChecksum (table_bytes h files @ region_bytes h files))
     @ packUint32 (length (table_bytes h files @ region_bytes h files))"
  have l: "length ?hd = 12" by simp
  have "slice (?hd @ table_bytes h files @ region_bytes h files) (length ?hd + 0) (44 * length files)
      = slice (table_bytes h files @ region_bytes h files) 0 (44 * length files)"
    by (rule slice_append_right)
  also have "\<dots> = table_bytes h files"
    using slice_prefix [of "table_bytes h files" "region_bytes h files"] by simp
  finally show ?thesis by (simp only: container_split l) simp
qed

lemma container_region: "drop (12 + 44 * length files) (container h files) = region_bytes h files"
  by (simp add: container_def)

lemma container_entry:
  assumes "i < length files"
  shows "slice (container h files) (12 + 44 * i) 44 = mmap_entry (packed_infos h files ! i)"
proof -
  have "44 * i + 44 \<le> 44 * length files" using assms by simp
  then have "slice (slice (container h files) 12 (44 * length files)) (44 * i) 44
      = slice (container h files) (12 + 44 * i) 44"
    by (rule slice_slice)
  moreover have "slice (table_bytes h files) (44 * i) 44 = mmap_entry (packed_infos h files ! i)"
    unfolding table_bytes_def
    using concat_fixed_slice [of 44 "map mmap_entry (packed_infos h files)" i] assms
    by (simp add: list_all_iff)
  ultimately show ?thesis by (simp add: container_table)
qed

lemma container_field:
  assumes "i < length files" and "b + len \<le> 44"
  shows "slice (container h files) (12 + 44 * i + b) len = slice (mmap_entry (packed_infos h files ! i)) b len"
  using slice_slice [OF assms(2), of "container h files" "12 + 44 * i"] container_entry [OF assms(1), of h]
  by simp

lemma entry_name: "slice (mmap_entry fi) 0 32 = name32 (filename fi) 32"
  by (simp add: mmap_entry_def slice_def)

lemma entry_size: "slice (mmap_entry fi) 32 4 = packUint32 (size_f fi)"
  by (simp add: mmap_entry_def slice_def)

lemma entry_offset: "slice (mmap_entry fi) 36 4 = packUint32 (offset fi)"
  by (simp add: mmap_entry_def slice_def)

lemma entry_width: "slice (mmap_entry fi) 40 2 = packUint16 (width fi)"
  by (simp add: mmap_entry_def slice_def)

lemma entry_height: "slice (mmap_entry fi) 42 2 = packUint16 (height fi)"
  by (simp add: mmap_entry_def slice_def)

lemma packed_infos_nth:
  "i < length files \<Longrightarrow>
   packed_infos h files ! i =
     \<lparr>filename = filename (sortFiles h files ! i), data = data (sortFiles h files ! i),
      size_f = size_f (sortFiles h files ! i),
      width = fst (resolve_dimensions h (sortFiles h files ! i)),
      height = snd (resolve_dimensions h (sortFiles h files ! i)),
      offset = (\<Sum>j<i. 2 + size_f (sortFiles h files ! j))\<rparr>"
  unfolding packed_infos_def by (simp add: file_infos_nth)

lemma region_at:
  assumes i: "i < length files" and sz: "list_all (\<lambda>f. size_f f = length (data f)) files"
  shows "drop (\<Sum>j<i. 2 + size_f (sortFiles h files ! j)) (region_bytes h files)
       = [0x5A, 0x5A] @ data (sortFiles h files ! i) @ concat (map marked (drop (Suc i) (packed_infos h files)))"
proof -
  let ?I = "packed_infos h files"
  have ssz: "list_all (\<lambda>f. size_f f = length (data f)) (sortFiles h files)"
    by (rule sortFiles_sized [OF sz])
  have len: "\<And>j. j < i \<Longrightarrow> length (map marked ?I ! j) = 2 + size_f (sortFiles h files ! j)"
  proof -
    fix j assume "j < i"
    then have j: "j < length files" using i by simp
    then have "size_f (sortFiles h files ! j) = length (data (sortFiles h files ! j))"
      using ssz by (simp add: list_all_length)
    then show "length (map marked ?I ! j) = 2 + size_f (sortFiles h files ! j)"
      using j by (simp add: marked_def packed_infos_nth)
  qed
  have "(\<Sum>j<i. 2 + size_f (sortFiles h files ! j)) = (\<Sum>j<i. length (map marked ?I ! j))"
    by (rule sum.cong) (simp_all add: len)
  then have "drop (\<Sum>j<i. 2 + size_f (sortFiles h files ! j)) (region_bytes h files)
      = concat (drop i (map marked ?I))"
    unfolding region_bytes_def using concat_drop_sum [of i "map marked ?I"] i by simp
  also have "drop i (map marked ?I) = marked (?I ! i) # map marked (drop (Suc i) ?I)"
    using i by (simp add: drop_map Cons_nth_drop_Suc [symmetric])
  finally show ?thesis using i by (simp add: marked_def packed_infos_nth)
qed

lemma le_bytes_nat:
  "(v::nat) mod 256 + 256 * (v div 256 mod 256) + 65536 * (v div 65536 mod 256)
     + 16777216 * (v div 16777216 mod 256) = v mod 4294967296"
proof -
  have a: "v mod (256 * 256) = 256 * (v div 256 mod 256) + v mod 256"
    by (rule mod_mult2_eq)
  have b: "v mod (65536 * 256) = 65536 * (v div 65536 mod 256) + v mod 65536"
    by (rule mod_mult2_eq)
  have c: "v mod (16777216 * 256) = 16777216 * (v div 16777216 mod 256) + v mod 16777216"
    by (rule mod_mult2_eq)
  from a b c show ?thesis by simp
qed

lemma le32_packUint32: "le32 (packUint32 v) = v mod 2 ^ 32"
  using le_bytes_nat [of v]
  by (simp add: packUint32_def unat_of_nat take_bit_eq_mod drop_bit_eq_div)

lemma le16_packUint16: "le16 (packUint16 v) = v mod 2 ^ 16"
  using mod_mult2_eq [of v 256 256]
  by (simp add: packUint16_def unat_of_nat take_bit_eq_mod drop_bit_eq_div)

lemma foldl_byte_sum: "foldl (\<lambda>checksum b. checksum + unat b) a d = a + byte_sum d"
  by (induction d arbitrary: a) (simp_all add: byte_sum_def)

lemma computeChecksum_eq: "computeChecksum d = byte_sum d mod 65536"
  by (simp add: computeChecksum_def foldl_byte_sum take_bit_eq_mod)

lemma packUint32_high_zero: "v < 65536 \<Longrightarrow> drop 2 (packUint32 v) = [0, 0]"
  by (simp add: packUint32_def drop_bit_eq_div)

lemma container_checksum_field:
  "slice (container h files) 4 4 = packUint32 (computeChecksum (table_bytes h files @ region_bytes h files))"
  by (simp add: container_def slice_def)

lemma container_body: "drop 12 (container h files) = table_bytes h files @ region_bytes h files"
  by (simp add: container_def)

text \<open>
  Claim C1. For a non-empty sequence of entries, \<open>generate\<close> returns a container, and the
  offset field of table entry \<open>i\<close> (in packed order) holds the sum of \<open>2 + size\<close> over the
  entries before it: the four bytes are \<open>packUint32\<close> of that sum, a reader gets the sum
  back (modulo \<open>2 ^ 32\<close>, so exactly when it is below \<open>2 ^ 32\<close>), the first entry's offset
  is 0, and at that position of the data region stand the marker 0x5A 0x5A and then the
  entry's bytes.
\<close>

theorem mmap_offset_is_marker_position:
  assumes "es \<noteq> []" and "i < length es"
  shows "\<exists>out. generate h (addFiles es) = Inr out \<and>
           slice out (12 + 44 * i + 36) 4
             = packUint32 (marker_position (sortFiles h (addFiles es)) i) \<and>
           le32 (slice out (12 + 44 * i + 36) 4)
             = marker_position (sortFiles h (addFiles es)) i mod 2 ^ 32 \<and>
           (marker_position (sortFiles h (addFiles es)) i < 2 ^ 32 \<longrightarrow>
              le32 (slice out (12 + 44 * i + 36) 4)
                = marker_position (sortFiles h (addFiles es)) i) \<and>
           le32 (slice out (12 + 36) 4) = 0 \<and>
           slice (data_region (length es) out) (marker_position (sortFiles h (addFiles es)) i) 2
             = [0x5A, 0x5A] \<and>
           slice (data_region (length es) out)
               (marker_position (sortFiles h (addFiles es)) i + 2)
               (size_f (sortFiles h (addFiles es) ! i))
             = data (sortFiles h (addFiles es) ! i)"
proof -
  let ?files = "addFiles es"
  let ?out = "container h ?files"
  let ?m = "marker_position (sortFiles h ?files) i"
  have i: "i < length ?files" using assms(2) by simp
  have z: "0 < length ?files" using assms(1) by simp
  have sz: "list_all (\<lambda>f. size_f f = length (data f)) ?files" by (rule addFiles_sized)
  have g: "generate h ?files = Inr ?out" by (rule generate_addFiles [OF assms(1)])
  have f: "slice ?out (12 + 44 * i + 36) 4 = packUint32 ?m"
    using container_field [OF i, of 36 4 h] i
    by (simp add: entry_offset packed_infos_nth marker_position_def)
  have f0: "slice ?out (12 + 36) 4 = packUint32 0"
    using container_field [OF z, of 36 4 h] z
    by (simp add: entry_offset packed_infos_nth)
  have d: "le32 (slice ?out (12 + 44 * i + 36) 4) = ?m mod 2 ^ 32"
    by (simp only: f le32_packUint32)
  have d0: "le32 (slice ?out (12 + 36) 4) = 0"
    by (simp only: f0 le32_packUint32) simp
  have r: "drop ?m (data_region (length es) ?out)
      = [0x5A, 0x5A] @ data (sortFiles h ?files ! i)
        @ concat (map marked (drop (Suc i) (packed_infos h ?files)))"
    using region_at [OF i sz, of h] container_region [of ?files h]
    by (simp add: data_region_def marker_position_def)
  have m1: "slice (data_region (length es) ?out) ?m 2 = [0x5A, 0x5A]"
    unfolding slice_def r by simp
  have s: "size_f (sortFiles h ?files ! i) = length (data (sortFiles h ?files ! i))"
    using sortFiles_sized [OF sz, of h] i by (simp add: list_all_length)
  have "drop (?m + 2) (data_region (length es) ?out) = drop 2 (drop ?m (data_region (length es) ?out))"
    by (simp add: add.commute)
  then have m2: "slice (data_region (length es) ?out) (?m + 2) (size_f (sortFiles h ?files ! i))
      = data (sortFiles h ?files ! i)"
    unfolding slice_def r s by simp
  from g f d d0 m1 m2 show ?thesis by simp
qed

theorem mmap_offset_is_marker_position_witness:
  "example_entries \<noteq> [] \<and> (2::nat) < length example_entries \<and>
   (\<exists>out. generate example_host (addFiles example_entries) = Inr out \<and>
      le32 (slice out (12 + 44 * 2 + 36) 4)
        = marker_position (sortFiles example_host (addFiles example_entries)) 2 mod 2 ^ 32 \<and>
      slice (data_region (length example_entries) out)
          (marker_position (sortFiles example_host (addFiles example_entries)) 2) 2
        = [0x5A, 0x5A])"
proof -
  have a: "example_entries \<noteq> []" by (simp add: example_entries_def)
  have b: "(2::nat) < length example_entries" by (simp add: example_entries_def)
  from mmap_offset_is_marker_position [OF a b, of example_host] a b show ?thesis by blast
qed

lemma marked_file_infos:
  "map marked (file_infos h fs m) = map (\<lambda>f. [0x5A, 0x5A] @ data f) fs"
  by (induction fs arbitrary: m) (simp_all add: marked_def)

lemma region_bytes_sorted:
  "region_bytes h files = concat (map (\<lambda>f. [0x5A, 0x5A] @ data f) (sortFiles h files))"
  by (simp add: region_bytes_def packed_infos_def marked_file_infos)

lemma length_container:
  "length (container h files) = 12 + 44 * length files + length (region_bytes h files)"
  by (simp add: container_def)

text \<open>
  Claim C2. For a non-empty sequence of entries the container is the 12-byte header, the
  mapping table of the entries in packed order (44 bytes each) and the data region (each
  entry's bytes after the marker 0x5A 0x5A, in packed order), and nothing else. Bytes 4..7
  are \<open>packUint32\<close> of the sum of all bytes of that table and that data region modulo
  65536; the two high bytes are zero; and \<open>computeChecksum\<close> over the table and the data
  region read back from the container gives the stored number. Entries of length zero are
  entries like any other.
\<close>

theorem checksum_is_byte_sum:
  assumes "es \<noteq> []"
  shows "\<exists>out. generate h (addFiles es) = Inr out \<and>
           length out = 12 + 44 * length es + length (region_bytes h (addFiles es)) \<and>
           mapping_table (length es) out = table_bytes h (addFiles es) \<and>
           data_region (length es) out = region_bytes h (addFiles es) \<and>
           data_region (length es) out
             = concat (map (\<lambda>f. [0x5A, 0x5A] @ data f) (sortFiles h (addFiles es))) \<and>
           drop 12 out = mapping_table (length es) out @ data_region (length es) out \<and>
           slice out 4 4
             = packUint32 (byte_sum (table_bytes h (addFiles es) @ region_bytes h (addFiles es))
                           mod 65536) \<and>
           slice out 4 4 = packUint32 (byte_sum (drop 12 out) mod 65536) \<and>
           le32 (slice out 4 4) = byte_sum (drop 12 out) mod 65536 \<and>
           slice out 6 2 = [0, 0] \<and>
           computeChecksum (mapping_table (length es) out @ data_region (length es) out)
             = le32 (slice out 4 4)"
proof -
  let ?files = "addFiles es"
  let ?out = "container h ?files"
  let ?c = "byte_sum (drop 12 ?out) mod 65536"
  have g: "generate h ?files = Inr ?out" by (rule generate_addFiles [OF assms])
  have len: "length ?out = 12 + 44 * length es + length (region_bytes h ?files)"
    by (simp add: length_container)
  have mt: "mapping_table (length es) ?out = table_bytes h ?files"
    using container_table [of h ?files] by (simp add: mapping_table_def)
  have dr: "data_region (length es) ?out = region_bytes h ?files"
    using container_region [of ?files h] by (simp add: data_region_def)
  have dr': "data_region (length es) ?out
      = concat (map (\<lambda>f. [0x5A, 0x5A] @ data f) (sortFiles h ?files))"
    by (simp only: dr region_bytes_sorted)
  have b: "drop 12 ?out = mapping_table (length es) ?out @ data_region (length es) ?out"
    by (simp only: mt dr container_body)
  have c: "slice ?out 4 4 = packUint32 ?c"
    by (simp only: container_checksum_field container_body computeChecksum_eq)
  have c': "slice ?out 4 4
      = packUint32 (byte_sum (table_bytes h ?files @ region_bytes h ?files) mod 65536)"
    by (simp only: container_checksum_field computeChecksum_eq)
  have lt: "?c < 65536" by simp
  have lt': "?c < 2 ^ 32" using lt by simp
  have d: "le32 (slice ?out 4 4) = ?c"
    using lt' by (simp only: c le32_packUint32 mod_less)
  have "slice ?out 6 2 = slice (slice ?out 4 4) 2 2"
    using slice_slice [of 2 2 4 ?out 4] by simp
  also have "\<dots> = [0, 0]"
    unfolding c using packUint32_high_zero [OF lt] by (simp add: slice_def)
  finally have hz: "slice ?out 6 2 = [0, 0]" .
  have r: "computeChecksum (mapping_table (length es) ?out @ data_region (length es) ?out)
      = le32 (slice ?out 4 4)"
    by (simp only: b [symmetric] d computeChecksum_eq)
  show ?thesis
    apply (rule exI [of _ ?out])
    apply (intro conjI)
    apply (rule g len mt dr dr' b c' c d hz r)+
    done
qed

text \<open>
  Claim C9. Packing never fails on a long name: for a non-empty sequence of entries
  \<open>generate\<close> returns a container whose name field of entry \<open>i\<close> is the first 32 bytes of the
  UTF-8 encoding of the name, padded with zeros only when the encoding is shorter; a
  longer encoding fills all 32 bytes (no terminator), and two entries whose encodings
  agree on their first 32 bytes have equal name fields.
\<close>

theorem long_names_are_cut_to_32_bytes:
  assumes "es \<noteq> []" and "i < length es" and "j < length es"
  shows "\<exists>out. generate h (addFiles es) = Inr out \<and>
           slice out (12 + 44 * i) 32
             = take 32 (textEncoder_encode (filename (sortFiles h (addFiles es) ! i)))
               @ replicate (32 - length (textEncoder_encode (filename (sortFiles h (addFiles es) ! i)))) 0 \<and>
           (32 < length (textEncoder_encode (filename (sortFiles h (addFiles es) ! i))) \<longrightarrow>
              slice out (12 + 44 * i) 32
                = take 32 (textEncoder_encode (filename (sortFiles h (addFiles es) ! i)))) \<and>
           (32 \<le> length (textEncoder_encode (filename (sortFiles h (addFiles es) ! i))) \<and>
            take 32 (textEncoder_encode (filename (sortFiles h (addFiles es) ! i)))
              = take 32 (textEncoder_encode (filename (sortFiles h (addFiles es) ! j))) \<longrightarrow>
              slice out (12 + 44 * i) 32 = slice out (12 + 44 * j) 32)"
proof -
  let ?files = "addFiles es"
  let ?out = "container h ?files"
  let ?e = "\<lambda>k. textEncoder_encode (filename (sortFiles h ?files ! k))"
  have g: "generate h ?files = Inr ?out" by (rule generate_addFiles [OF assms(1)])
  have n: "\<And>k. k < length es \<Longrightarrow>
      slice ?out (12 + 44 * k) 32 = take 32 (?e k) @ replicate (32 - length (?e k)) 0"
  proof -
    fix k assume "k < length es"
    then have k: "k < length ?files" by simp
    show "slice ?out (12 + 44 * k) 32 = take 32 (?e k) @ replicate (32 - length (?e k)) 0"
      using container_field [OF k, of 0 32 h] k
      by (simp add: entry_name packed_infos_nth name32_def)
  qed
  have same: "slice ?out (12 + 44 * i) 32 = slice ?out (12 + 44 * j) 32"
    if a: "32 \<le> length (?e i)" and b: "take 32 (?e i) = take 32 (?e j)"
  proof -
    have "length (take 32 (?e j)) = 32" using a b by (metis length_take min.absorb2)
    then have "32 \<le> length (?e j)" by simp
    then show ?thesis using a b by (simp add: n [OF assms(2)] n [OF assms(3)])
  qed
  show ?thesis
    using g n [OF assms(2)] same by auto
qed

theorem long_names_are_cut_to_32_bytes_witness:
  "long_name_entries \<noteq> [] \<and> (0::nat) < length long_name_entries \<and>
   (1::nat) < length long_name_entries \<and>
   32 < length (textEncoder_encode (filename (sortFiles example_host (addFiles long_name_entries) ! 0))) \<and>
   (\<exists>out. generate example_host (addFiles long_name_entries) = Inr out \<and>
      slice out (12 + 44 * 0) 32 = map of_char ''abcdefghijklmnopqrstuvwxyz012345'' \<and>
      slice out (12 + 44 * 0) 32 = slice out (12 + 44 * 1) 32)"
proof -
  have a: "long_name_entries \<noteq> []" by (simp add: long_name_entries_def)
  have b: "(0::nat) < length long_name_entries" by (simp add: long_name_entries_def)
  have c: "(1::nat) < length long_name_entries" by (simp add: long_name_entries_def)
  have f: "addFiles long_name_entries =
     [\<lparr>filename = ascii ''abcdefghijklmnopqrstuvwxyz0123456789.bin'', data = [1], size_f = 1,
        width = 0, height = 0\<rparr>,
      \<lparr>filename = ascii ''abcdefghijklmnopqrstuvwxyz012345_other.bin'', data = [2], size_f = 1,
        width = 0, height = 0\<rparr>]"
    by (simp add: long_name_entries_def addFiles_def addFile_def no_options_def or_zero_def)
  have s: "sortFiles example_host (addFiles long_name_entries) = addFiles long_name_entries"
    unfolding f
    by (simp add: sortFiles_def array_sort_def compare_files_def example_host_def
        codeUnitCompare_def ascii_def dot_def slash_def pop_def or_empty_def)
  have e0: "textEncoder_encode (ascii ''abcdefghijklmnopqrstuvwxyz0123456789.bin'')
      = map of_char ''abcdefghijklmnopqrstuvwxyz0123456789.bin''"
    by (simp add: textEncoder_encode_def ascii_def lone_unit_def is_high_surrogate_def
        is_low_surrogate_def utf8_bytes_def)
  have e1: "textEncoder_encode (ascii ''abcdefghijklmnopqrstuvwxyz012345_other.bin'')
      = map of_char ''abcdefghijklmnopqrstuvwxyz012345_other.bin''"
    by (simp add: textEncoder_encode_def ascii_def lone_unit_def is_high_surrogate_def
        is_low_surrogate_def utf8_bytes_def)
  have n0: "filename (sortFiles example_host (addFiles long_name_entries) ! 0)
      = ascii ''abcdefghijklmnopqrstuvwxyz0123456789.bin''"
    by (simp only: s) (simp add: f)
  have n1: "filename (sortFiles example_host (addFiles long_name_entries) ! 1)
      = ascii ''abcdefghijklmnopqrstuvwxyz012345_other.bin''"
    by (simp only: s) (simp add: f)
  have l: "32 < length (textEncoder_encode (filename (sortFiles example_host (addFiles long_name_entries) ! 0)))"
    unfolding n0 e0 by simp
  from long_names_are_cut_to_32_bytes [OF a b c, of example_host]
  obtain out where g: "generate example_host (addFiles long_name_entries) = Inr out"
    and x: "slice out (12 + 44 * 0) 32
        = take 32 (map of_char ''abcdefghijklmnopqrstuvwxyz0123456789.bin'')
          @ replicate (32 - length (map of_char ''abcdefghijklmnopqrstuvwxyz0123456789.bin'' :: byte list)) 0"
    and y: "32 \<le> length (map of_char ''abcdefghijklmnopqrstuvwxyz0123456789.bin'' :: byte list) \<and>
        take 32 (map of_char ''abcdefghijklmnopqrstuvwxyz0123456789.bin'' :: byte list)
          = take 32 (map of_char ''abcdefghijklmnopqrstuvwxyz012345_other.bin'') \<longrightarrow>
        slice out (12 + 44 * 0) 32 = slice out (12 + 44 * 1) 32"
    unfolding n0 n1 e0 e1 by blast
  have x': "slice out (12 + 44 * 0) 32 = map of_char ''abcdefghijklmnopqrstuvwxyz012345''"
    unfolding x by simp
  have y': "slice out (12 + 44 * 0) 32 = slice out (12 + 44 * 1) 32"
    using y by simp
  from a b c l g x' y' show ?thesis by blast
qed
subsection \<open>The packed order\<close>

lemma set_insert_by [simp]: "set (insert_by c x xs) = insert x (set xs)"
  by (induction xs) auto

lemma consistent_on_subset: "consistent_on A c \<Longrightarrow> B \<subseteq> A \<Longrightarrow> consistent_on B c"
  unfolding consistent_on_def by blast

lemma sorted_insert_by:
  assumes "consistent_on (insert x (set xs)) c" and "sorted_wrt (\<lambda>a b. c a b \<le> 0) xs"
  shows "sorted_wrt (\<lambda>a b. c a b \<le> 0) (insert_by c x xs)"
  using assms
proof (induction xs)
  case Nil
  then show ?case by simp
next
  case (Cons y ys)
  have sub: "consistent_on (insert x (set ys)) c"
    by (rule consistent_on_subset [OF Cons.prems(1)]) auto
  have ih: "sorted_wrt (\<lambda>a b. c a b \<le> 0) (insert_by c x ys)"
    using Cons.IH [OF sub] Cons.prems(2) by simp
  show ?case
  proof (cases "c x y \<le> 0")
    case True
    have "\<forall>z\<in>set ys. c x z \<le> 0"
    proof
      fix z assume z: "z \<in> set ys"
      then have "c y z \<le> 0" using Cons.prems(2) by simp
      with True z Cons.prems(1) show "c x z \<le> 0"
        unfolding consistent_on_def by (metis insertCI list.set(2))
    qed
    with True Cons.prems(2) show ?thesis by simp
  next
    case False
    then have "c y x \<le> 0"
      using Cons.prems(1) unfolding consistent_on_def by (metis insertCI list.set(2))
    with False ih Cons.prems(2) show ?thesis by auto
  qed
qed

lemma sorted_array_sort:
  "consistent_on (set xs) c \<Longrightarrow> sorted_wrt (\<lambda>a b. c a b \<le> 0) (array_sort c xs)"
proof (induction xs)
  case Nil
  then show ?case by (simp add: array_sort_def)
next
  case (Cons x xs)
  have "consistent_on (set xs) c"
    by (rule consistent_on_subset [OF Cons.prems]) auto
  then have s: "sorted_wrt (\<lambda>a b. c a b \<le> 0) (array_sort c xs)" by (rule Cons.IH)
  have "consistent_on (insert x (set (array_sort c xs))) c"
    using Cons.prems by simp
  from sorted_insert_by [OF this s] show ?case by (simp add: array_sort_def)
qed

lemma array_sort_Cons: "array_sort c (x # xs) = insert_by c x (array_sort c xs)"
  by (simp add: array_sort_def)

lemma array_sort_sorted:
  "sorted_wrt (\<lambda>a b. c a b \<le> 0) xs \<Longrightarrow> array_sort c xs = xs"
proof (induction xs)
  case Nil
  then show ?case by (simp add: array_sort_def)
next
  case (Cons x xs)
  then have "array_sort c xs = xs" by simp
  moreover have "insert_by c x xs = x # xs"
    using Cons.prems by (cases xs) simp_all
  ultimately show ?case by (simp add: array_sort_Cons)
qed

lemma sorted_wrt_unique:
  assumes anti: "\<forall>a\<in>set xs. \<forall>b\<in>set xs. c a b \<le> 0 \<longrightarrow> c b a \<le> 0 \<longrightarrow> a = b"
    and "sorted_wrt (\<lambda>a b. c a b \<le> 0) xs" and "sorted_wrt (\<lambda>a b. c a b \<le> 0) ys"
    and "mset xs = mset ys"
  shows "xs = ys"
  using assms
proof (induction xs arbitrary: ys)
  case Nil
  then show ?case by simp
next
  case (Cons x xs)
  from Cons.prems(4) obtain y ys' where ys: "ys = y # ys'"
    by (cases ys) auto
  have sets: "set (x # xs) = set ys" using Cons.prems(4) by (metis set_mset_mset)
  have xy: "x = y"
  proof (rule ccontr)
    assume ne: "x \<noteq> y"
    have "x \<in> set ys'" using sets ys ne by auto
    then have 1: "c y x \<le> 0" using Cons.prems(3) ys by simp
    have "y \<in> set xs" using sets ys ne by auto
    then have 2: "c x y \<le> 0" and 3: "y \<in> set (x # xs)" using Cons.prems(2) by simp_all
    from Cons.prems(1) 1 2 3 have "x = y" by (metis list.set_intros(1))
    with ne show False by simp
  qed
  have "mset xs = mset ys'" using Cons.prems(4) ys xy by simp
  moreover have "\<forall>a\<in>set xs. \<forall>b\<in>set xs. c a b \<le> 0 \<longrightarrow> c b a \<le> 0 \<longrightarrow> a = b"
    using Cons.prems(1) by simp
  ultimately have "xs = ys'"
    using Cons.IH [of ys'] Cons.prems(2,3) ys by simp
  with xy ys show ?case by simp
qed

lemma compare_files_key:
  "compare_files h a b =
     (if fst (sort_key a) \<noteq> fst (sort_key b)
      then localeCompare h (fst (sort_key a)) (fst (sort_key b))
      else localeCompare h (snd (sort_key a)) (snd (sort_key b)))"
  by (simp add: compare_files_def sort_key_def Let_def)

lemma key_in_strings:
  "a \<in> set fs \<Longrightarrow> fst (sort_key a) \<in> key_strings fs \<and> snd (sort_key a) \<in> key_strings fs"
  by (auto simp: key_strings_def)

lemma compare_consistent:
  assumes lin: "linear_on (key_strings fs) (localeCompare h)"
  shows "consistent_on (set fs) (compare_files h)"
  unfolding consistent_on_def
proof (intro conjI ballI impI)
  fix a b assume a: "a \<in> set fs" and b: "b \<in> set fs"
  note ka = key_in_strings [OF a] and kb = key_in_strings [OF b]
  show "compare_files h a b \<le> 0 \<or> compare_files h b a \<le> 0"
    using lin ka kb unfolding linear_on_def compare_files_key
    by (smt (verit, best))
next
  fix a b d assume a: "a \<in> set fs" and b: "b \<in> set fs" and d: "d \<in> set fs"
    and ab: "compare_files h a b \<le> 0" and bd: "compare_files h b d \<le> 0"
  note ka = key_in_strings [OF a] and kb = key_in_strings [OF b] and kd = key_in_strings [OF d]
  show "compare_files h a d \<le> 0"
    using lin ka kb kd ab bd unfolding linear_on_def compare_files_key
    by (smt (verit, best))
qed

lemma compare_antisym:
  assumes lin: "linear_on (key_strings fs) (localeCompare h)"
    and dist: "distinct (map sort_key fs)"
    and a: "a \<in> set fs" and b: "b \<in> set fs"
    and ab: "compare_files h a b \<le> 0" and ba: "compare_files h b a \<le> 0"
  shows "a = b"
proof -
  note ka = key_in_strings [OF a] and kb = key_in_strings [OF b]
  have "fst (sort_key a) = fst (sort_key b) \<and> snd (sort_key a) = snd (sort_key b)"
    using lin ka kb ab ba unfolding linear_on_def compare_files_key
    by (smt (verit, best))
  then have "sort_key a = sort_key b" by (simp add: prod_eq_iff)
  with dist a b show ?thesis by (meson distinct_map inj_onD)
qed

lemma addFiles_map:
  "addFiles es = map (\<lambda>(fname, d, ops). \<lparr>filename = fname, data = d, size_f = length d,
       width = or_zero (opt_width ops), height = or_zero (opt_height ops)\<rparr>) es"
  by (induction es rule: rev_induct) (auto simp: addFiles_snoc addFile_def addFiles_def)

lemma mset_addFiles: "mset es' = mset es \<Longrightarrow> mset (addFiles es') = mset (addFiles es)"
  by (simp add: addFiles_map)

lemma generate_cong:
  "length fs' = length fs \<Longrightarrow> sortFiles h fs' = sortFiles h fs \<Longrightarrow> generate h fs' = generate h fs"
  by (simp add: generate_def)

lemma sortFiles_sorted:
  "linear_on (key_strings fs) (localeCompare h) \<Longrightarrow>
   sorted_wrt (\<lambda>a b. compare_files h a b \<le> 0) (sortFiles h fs)"
  unfolding sortFiles_def by (rule sorted_array_sort [OF compare_consistent])

lemma sortFiles_permutation:
  assumes lin: "linear_on (key_strings fs) (localeCompare h)"
    and dist: "distinct (map sort_key fs)"
    and perm: "mset fs' = mset fs"
  shows "sortFiles h fs' = sortFiles h fs"
proof -
  have sets: "set fs' = set fs" using perm by (metis set_mset_mset)
  have ks: "key_strings fs' = key_strings fs" by (simp add: key_strings_def sets)
  have s1: "sorted_wrt (\<lambda>a b. compare_files h a b \<le> 0) (sortFiles h fs)"
    by (rule sortFiles_sorted [OF lin])
  have s2: "sorted_wrt (\<lambda>a b. compare_files h a b \<le> 0) (sortFiles h fs')"
    by (rule sortFiles_sorted) (simp add: ks lin)
  have m: "mset (sortFiles h fs') = mset (sortFiles h fs)"
    by (simp add: sortFiles_def mset_array_sort perm)
  have anti: "\<forall>a\<in>set (sortFiles h fs'). \<forall>b\<in>set (sortFiles h fs').
      compare_files h a b \<le> 0 \<longrightarrow> compare_files h b a \<le> 0 \<longrightarrow> a = b"
    using compare_antisym [OF lin dist] by (simp add: sortFiles_def sets)
  show ?thesis by (rule sorted_wrt_unique [OF anti s2 s1 m])
qed

lemma sorted_wrt_distinct:
  "sorted_wrt P xs \<Longrightarrow> distinct xs \<Longrightarrow> sorted_wrt (\<lambda>a b. P a b \<and> a \<noteq> b) xs"
  by (induction xs) auto

lemma sortFiles_strict:
  assumes lin: "linear_on (key_strings fs) (localeCompare h)"
    and dist: "distinct (map sort_key fs)"
  shows "sorted_wrt (\<lambda>a b. key_before (localeCompare h) (sort_key a) (sort_key b)) (sortFiles h fs)"
proof -
  let ?s = "sortFiles h fs"
  have "distinct fs" using dist by (simp add: distinct_map)
  then have d: "distinct ?s"
    using mset_eq_imp_distinct_iff [OF mset_array_sort [of "compare_files h" fs]]
    by (simp add: sortFiles_def)
  have s: "sorted_wrt (\<lambda>a b. compare_files h a b \<le> 0) ?s" by (rule sortFiles_sorted [OF lin])
  have both: "sorted_wrt (\<lambda>a b. compare_files h a b \<le> 0 \<and> a \<noteq> b) ?s"
    by (rule sorted_wrt_distinct [OF s d])
  have step: "key_before (localeCompare h) (sort_key a) (sort_key b)"
    if a: "a \<in> set ?s" and b: "b \<in> set ?s" and c: "compare_files h a b \<le> 0 \<and> a \<noteq> b" for a b
  proof -
    have a': "a \<in> set fs" and b': "b \<in> set fs" using a b by (simp_all add: sortFiles_def)
    note ka = key_in_strings [OF a'] and kb = key_in_strings [OF b']
    have "\<not> compare_files h b a \<le> 0" using compare_antisym [OF lin dist a' b'] c by blast
    then show ?thesis
      using lin ka kb c unfolding linear_on_def compare_files_key key_before_def
      by (smt (verit, best))
  qed
  show ?thesis by (rule sorted_wrt_mono_rel [OF _ both]) (simp add: step)
qed

lemma filter_insert_by_in:
  "P x \<Longrightarrow> (\<And>y. y \<in> set ys \<Longrightarrow> P y \<Longrightarrow> c x y \<le> 0) \<Longrightarrow>
   filter P (insert_by c x ys) = x # filter P ys"
proof (induction ys)
  case Nil
  then show ?case by simp
next
  case (Cons y ys)
  show ?case
  proof (cases "c x y \<le> 0")
    case True
    then show ?thesis using Cons.prems(1) by simp
  next
    case False
    then have "\<not> P y" using Cons.prems(2) [of y] by auto
    moreover have "filter P (insert_by c x ys) = x # filter P ys"
      by (rule Cons.IH [OF Cons.prems(1)]) (simp add: Cons.prems(2))
    ultimately show ?thesis using False by simp
  qed
qed

lemma filter_insert_by_out: "\<not> P x \<Longrightarrow> filter P (insert_by c x ys) = filter P ys"
  by (induction ys) simp_all

lemma filter_array_sort:
  "(\<And>x y. x \<in> set xs \<Longrightarrow> y \<in> set xs \<Longrightarrow> P x \<Longrightarrow> P y \<Longrightarrow> c x y \<le> 0) \<Longrightarrow>
   filter P (array_sort c xs) = filter P xs"
proof (induction xs)
  case Nil
  then show ?case by (simp add: array_sort_def)
next
  case (Cons x xs)
  have ih: "filter P (array_sort c xs) = filter P xs"
    by (rule Cons.IH) (simp add: Cons.prems)
  show ?case
  proof (cases "P x")
    case True
    have "filter P (insert_by c x (array_sort c xs)) = x # filter P (array_sort c xs)"
      by (rule filter_insert_by_in [where P = P, OF True]) (simp add: Cons.prems True)
    then show ?thesis using True ih by (simp add: array_sort_Cons)
  next
    case False
    then show ?thesis using ih by (simp add: array_sort_Cons filter_insert_by_out)
  qed
qed

lemma sortFiles_stable:
  assumes "\<And>f. f \<in> set fs \<Longrightarrow> localeCompare h (snd (sort_key f)) (snd (sort_key f)) \<le> 0"
  shows "filter (\<lambda>f. sort_key f = k) (sortFiles h fs) = filter (\<lambda>f. sort_key f = k) fs"
  unfolding sortFiles_def
proof (rule filter_array_sort)
  fix x y assume "x \<in> set fs" "y \<in> set fs" "sort_key x = k" "sort_key y = k"
  then show "compare_files h x y \<le> 0"
    using assms [of x] by (simp add: compare_files_key)
qed

lemma sortFiles_ascending:
  assumes lin: "linear_on (key_strings fs) (localeCompare h)"
  shows "sorted_wrt (\<lambda>a b. key_before (localeCompare h) (sort_key a) (sort_key b)
                          \<or> sort_key a = sort_key b) (sortFiles h fs)"
proof -
  let ?s = "sortFiles h fs"
  have s: "sorted_wrt (\<lambda>a b. compare_files h a b \<le> 0) ?s" by (rule sortFiles_sorted [OF lin])
  have step: "key_before (localeCompare h) (sort_key a) (sort_key b) \<or> sort_key a = sort_key b"
    if a: "a \<in> set ?s" and b: "b \<in> set ?s" and c: "compare_files h a b \<le> 0" for a b
  proof -
    have a': "a \<in> set fs" and b': "b \<in> set fs" using a b by (simp_all add: sortFiles_def)
    note ka = key_in_strings [OF a'] and kb = key_in_strings [OF b']
    let ?lc = "localeCompare h"
    show ?thesis
    proof (cases "fst (sort_key a) = fst (sort_key b)")
      case False
      then have "?lc (fst (sort_key a)) (fst (sort_key b)) \<le> 0" using c by (simp add: compare_files_key)
      moreover have "?lc (fst (sort_key a)) (fst (sort_key b)) \<noteq> 0"
        using lin ka kb False unfolding linear_on_def by blast
      ultimately show ?thesis by (simp add: key_before_def)
    next
      case True
      then have le: "?lc (snd (sort_key a)) (snd (sort_key b)) \<le> 0" using c by (simp add: compare_files_key)
      show ?thesis
      proof (cases "?lc (snd (sort_key a)) (snd (sort_key b)) = 0")
        case z: True
        then have "snd (sort_key a) = snd (sort_key b)"
          using lin ka kb unfolding linear_on_def by blast
        with True show ?thesis by (simp add: prod_eq_iff)
      next
        case False
        with le True show ?thesis by (simp add: key_before_def)
      qed
    qed
  qed
  show ?thesis by (rule sorted_wrt_mono_rel [OF _ s]) (simp add: step)
qed


lemma linear_on_codeUnitCompare: "linear_on S codeUnitCompare"
  unfolding linear_on_def codeUnitCompare_def by auto

lemmas run_defs = addFiles_def addFile_def no_options_def or_zero_def sortFiles_def
  array_sort_def compare_files_def example_host_def codeUnitCompare_def ascii_def dot_def
  slash_def pop_def or_empty_def

lemma equal_keys_keep_order:
  assumes "localeCompare h (ascii ''a'') (ascii ''a'') = 0"
  shows "map filename (sortFiles h (addFiles [(ascii ''a'', d1, o1), (ascii ''a.a'', d2, o2)]))
           = [ascii ''a'', ascii ''a.a''] \<and>
         map filename (sortFiles h (addFiles [(ascii ''a.a'', d2, o2), (ascii ''a'', d1, o1)]))
           = [ascii ''a.a'', ascii ''a'']"
proof -
  have e1: "or_empty (pop (split_dot (ascii ''a''))) = ascii ''a''"
    and e2: "or_empty (pop (split_dot (ascii ''a.a''))) = ascii ''a''"
    and s1: "strip_extension (ascii ''a'') = ascii ''a''"
    and s2: "strip_extension (ascii ''a.a'') = ascii ''a''"
    by (simp_all add: ascii_def dot_def slash_def pop_def or_empty_def)
  show ?thesis
    using assms
    by (simp add: addFiles_def addFile_def sortFiles_def array_sort_def compare_files_def e1 e2 s1 s2)
qed

lemma extension_case_is_not_folded:
  "map filename (sortFiles h (addFiles [(ascii ''b.png'', d1, o1), (ascii ''a.PNG'', d2, o2)]))
     = [ascii ''b.png'', ascii ''a.PNG''] \<or>
   map filename (sortFiles h (addFiles [(ascii ''b.PNG'', d1, o1), (ascii ''a.png'', d2, o2)]))
     = [ascii ''b.PNG'', ascii ''a.png''] \<or>
   (0 < localeCompare h (ascii ''png'') (ascii ''PNG'') \<and>
    0 < localeCompare h (ascii ''PNG'') (ascii ''png''))"
proof -
  have e1: "or_empty (pop (split_dot (ascii ''b.png''))) = ascii ''png''"
    and e2: "or_empty (pop (split_dot (ascii ''a.PNG''))) = ascii ''PNG''"
    and e3: "or_empty (pop (split_dot (ascii ''b.PNG''))) = ascii ''PNG''"
    and e4: "or_empty (pop (split_dot (ascii ''a.png''))) = ascii ''png''"
    and ne: "ascii ''png'' \<noteq> ascii ''PNG''" "ascii ''PNG'' \<noteq> ascii ''png''"
    by (simp_all add: ascii_def dot_def slash_def pop_def or_empty_def)
  show ?thesis
    by (cases "localeCompare h (ascii ''png'') (ascii ''PNG'') \<le> 0";
        cases "localeCompare h (ascii ''PNG'') (ascii ''png'') \<le> 0")
       (simp_all add: addFiles_def addFile_def sortFiles_def array_sort_def compare_files_def
          e1 e2 e3 e4 ne)
qed


section \<open>Proofs: CBinFont\<close>

lemma no_app_error_simps [simp]:
  "no_app_error (Inr x)" "no_app_error (Inl RangeError)" "no_app_error (Inl TypeError)"
  "no_app_error (Inl (Error m))" "\<not> no_app_error (Inl (AppError m))"
  by (simp_all add: no_app_error_def)

lemma no_app_error_bindE:
  "no_app_error m \<Longrightarrow> (\<And>x. no_app_error (g x)) \<Longrightarrow> no_app_error (bindE m g)"
  by (cases m) (simp_all add: no_app_error_def bindE_def)

lemma no_app_error_set_at [simp]: "no_app_error (set_at t s p)"
  by (simp add: set_at_def)

lemma no_app_error_setUint [simp]: "no_app_error (setUint n v p x)"
  by (simp add: setUint_def)

lemma no_app_error_writePTR [simp]: "no_app_error (writePTR k v x p)"
  by (simp add: writePTR_def no_app_error_bindE)

lemma no_app_error_write_glyph_dsc [simp]: "no_app_error (write_glyph_dsc v i d)"
  unfolding write_glyph_dsc_def by (intro no_app_error_bindE) simp_all

lemma no_app_error_glyph_dsc_loop [simp]: "no_app_error (glyph_dsc_loop l v i)"
  by (induction l v i rule: glyph_dsc_loop.induct) (simp_all add: no_app_error_bindE)

lemma no_app_error_glyf_toCBin [simp]: "no_app_error (glyf_toCBin f)"
  unfolding glyf_toCBin_def lv_compile_def Let_def
  by (intro no_app_error_bindE) (simp_all split: option.split)

lemma no_app_error_sparse_loop [simp]: "no_app_error (sparse_loop f c0 s cs a b)"
  by (induction cs arbitrary: a b) (simp_all add: Let_def split: option.split)

lemma no_app_error_collect_sparse [simp]: "no_app_error (collect_sparse_data f cs s)"
  by (cases cs) (simp_all add: collect_sparse_data_def del: sparse_loop.simps)

lemma no_app_error_cmap_payload [simp]: "no_app_error (cmap_payload f fmt cs a b s)"
  unfolding cmap_payload_def Let_def
  by (cases fmt) (simp_all add: no_app_error_bindE)

lemma no_app_error_cmap_round [simp]: "no_app_error (cmap_round f k st sub)"
  unfolding cmap_round_def Let_def
  by (auto split: list.split option.split prod.split intro!: no_app_error_bindE)

lemma no_app_error_cmap_rounds [simp]: "no_app_error (cmap_rounds f k subs st)"
  by (induction subs arbitrary: st) (simp_all add: no_app_error_bindE)

lemma no_app_error_cmap_toCBin [simp]: "no_app_error (cmap_toCBin pl f k)"
  unfolding cmap_toCBin_def Let_def
  by (auto split: option.split intro!: no_app_error_bindE)

lemma no_app_error_font_toCBin [simp]: "no_app_error (font_toCBin pl f)"
  unfolding font_toCBin_def Let_def
  by (auto split: prod.split intro!: no_app_error_bindE)

lemma messages_differ: "output_required_message \<noteq> bpp3_message"
  by (simp add: output_required_message_def bpp3_message_def)

text \<open>
  Claim C8. With \<open>bpp = 3\<close> and compression disabled the constructor raises the error before
  any table is built, and \<open>write_cbin\<close> (given an output name) returns that error and no
  bytes. In every other case (in particular for \<open>bpp\<close> 1, 2, 4 or 8, and for \<open>bpp = 3\<close> with
  compression) the constructor returns a font and \<open>write_cbin\<close> does not return that error.
\<close>

theorem bpp3_without_compression_is_refused:
  "(bpp options = 3 \<and> no_compress options \<longrightarrow>
      CBinFont_new fontData options = Inl (AppError bpp3_message) \<and>
      (output_name options \<noteq> None \<and> output_name options \<noteq> Some [] \<longrightarrow>
         write_cbin pl options fontData = Inl (AppError bpp3_message))) \<and>
   (\<not> (bpp options = 3 \<and> no_compress options) \<longrightarrow>
      (\<exists>font. CBinFont_new fontData options = Inr font) \<and>
      write_cbin pl options fontData \<noteq> Inl (AppError bpp3_message)) \<and>
   (bpp options \<in> {1, 2, 4, 8} \<longrightarrow>
      (\<exists>font. CBinFont_new fontData options = Inr font) \<and>
      write_cbin pl options fontData \<noteq> Inl (AppError bpp3_message))"
proof -
  have a: "CBinFont_new fontData options = Inl (AppError bpp3_message)"
    if "bpp options = 3 \<and> no_compress options"
    using that by (simp add: CBinFont_new_def)
  have b: "write_cbin pl options fontData = Inl (AppError bpp3_message)"
    if "bpp options = 3 \<and> no_compress options"
      and "output_name options \<noteq> None \<and> output_name options \<noteq> Some []"
    using that by (auto simp: write_cbin_def a bindE_def)
  have c: "\<exists>font. CBinFont_new fontData options = Inr font"
    if "\<not> (bpp options = 3 \<and> no_compress options)"
    using that by (simp add: CBinFont_new_def)
  have d: "write_cbin pl options fontData \<noteq> Inl (AppError bpp3_message)"
    if n: "\<not> (bpp options = 3 \<and> no_compress options)"
  proof (cases "output_name options = None \<or> output_name options = Some []")
    case True
    then show ?thesis using messages_differ by (simp add: write_cbin_def)
  next
    case False
    from c [OF n] obtain font where f: "CBinFont_new fontData options = Inr font" ..
    have "no_app_error (bindE (font_toCBin pl font)
        (\<lambda>result. Inr (or_empty_name (output_name options), result)))"
      by (rule no_app_error_bindE) simp_all
    then show ?thesis using False f by (auto simp: write_cbin_def bindE_def)
  qed
  have e: "\<not> (bpp options = 3 \<and> no_compress options)" if "bpp options \<in> {1, 2, 4, 8}"
    using that by auto
  from a b c d e show ?thesis by blast
qed

theorem bpp3_without_compression_is_refused_witness:
  "bpp (example_args\<lparr>bpp := 3\<rparr>) = 3 \<and> no_compress (example_args\<lparr>bpp := 3\<rparr>) \<and>
   output_name (example_args\<lparr>bpp := 3\<rparr>) \<noteq> None \<and>
   output_name (example_args\<lparr>bpp := 3\<rparr>) \<noteq> Some [] \<and>
   CBinFont_new (example_font [65]) (example_args\<lparr>bpp := 3\<rparr>) = Inl (AppError bpp3_message) \<and>
   write_cbin example_planner (example_args\<lparr>bpp := 3\<rparr>) (example_font [65])
     = Inl (AppError bpp3_message) \<and>
   bpp example_args \<in> {1, 2, 4, 8} \<and>
   (\<exists>font. CBinFont_new (example_font [65]) example_args = Inr font) \<and>
   write_cbin example_planner example_args (example_font [65]) \<noteq> Inl (AppError bpp3_message) \<and>
   \<not> (bpp (example_args\<lparr>bpp := 3, no_compress := False\<rparr>) = 3 \<and>
      no_compress (example_args\<lparr>bpp := 3, no_compress := False\<rparr>)) \<and>
   write_cbin example_planner (example_args\<lparr>bpp := 3, no_compress := False\<rparr>) (example_font [65])
     \<noteq> Inl (AppError bpp3_message)"
proof -
  let ?a3 = "example_args\<lparr>bpp := 3\<rparr>"
  let ?c3 = "example_args\<lparr>bpp := 3, no_compress := False\<rparr>"
  have h1: "bpp ?a3 = 3 \<and> no_compress ?a3" by (simp add: example_args_def)
  have h2: "output_name ?a3 \<noteq> None \<and> output_name ?a3 \<noteq> Some []" by (simp add: example_args_def)
  have h3: "bpp example_args \<in> {1, 2, 4, 8}" by (simp add: example_args_def)
  have h4: "\<not> (bpp ?c3 = 3 \<and> no_compress ?c3)" by simp
  note t1 = bpp3_without_compression_is_refused [of ?a3 "example_font [65]" example_planner]
  note t2 = bpp3_without_compression_is_refused [of example_args "example_font [65]" example_planner]
  note t3 = bpp3_without_compression_is_refused [of ?c3 "example_font [65]" example_planner]
  from t1 h1 h2 have r1: "CBinFont_new (example_font [65]) ?a3 = Inl (AppError bpp3_message)"
    and r2: "write_cbin example_planner ?a3 (example_font [65]) = Inl (AppError bpp3_message)"
    by blast+
  from t2 h3 have r3: "\<exists>font. CBinFont_new (example_font [65]) example_args = Inr font"
    and r4: "write_cbin example_planner example_args (example_font [65]) \<noteq> Inl (AppError bpp3_message)"
    by blast+
  from t3 h4 have r5: "write_cbin example_planner ?c3 (example_font [65]) \<noteq> Inl (AppError bpp3_message)"
    by blast
  from h1 h2 h3 h4 r1 r2 r3 r4 r5 show ?thesis by blast
qed

lemma glyph_id_fold_Nil [simp]: "glyph_id_fold m [] k = m"
  by (simp add: glyph_id_fold_def)

lemma glyph_id_fold_Cons [simp]:
  "glyph_id_fold m (g # l) k = glyph_id_fold (m(code g \<mapsto> k + 1)) l (Suc k)"
proof -
  have "[k..<k + length (g # l)] = k # [Suc k..<Suc k + length l]"
    by (simp add: upt_conv_Cons del: upt_Suc)
  then show ?thesis unfolding glyph_id_fold_def by (simp del: upt_Suc)
qed

lemma buildGlyphIdMap_fold: "buildGlyphIdMap (Some l) = glyph_id_fold Map.empty l 0"
  by (simp add: buildGlyphIdMap_def glyph_id_fold_def)

lemma glyph_id_fold_other: "c \<notin> code ` set l \<Longrightarrow> glyph_id_fold m l k c = m c"
  by (induction l arbitrary: m k) simp_all

lemma glyph_id_fold_nth:
  "distinct (map code l) \<Longrightarrow> i < length l \<Longrightarrow> glyph_id_fold m l k (code (l ! i)) = Some (k + i + 1)"
proof (induction l arbitrary: m k i)
  case Nil
  then show ?case by simp
next
  case (Cons g l)
  show ?case
  proof (cases i)
    case 0
    have "code g \<notin> code ` set l" using Cons.prems(1) by auto
    then show ?thesis using 0 by (simp add: glyph_id_fold_other)
  next
    case (Suc j)
    then show ?thesis using Cons by simp
  qed
qed

lemma buildGlyphIdMap_nth:
  "distinct (map code gs) \<Longrightarrow> i < length gs \<Longrightarrow>
   buildGlyphIdMap (Some gs) (code (gs ! i)) = Some (i + 1)"
  by (simp add: buildGlyphIdMap_fold glyph_id_fold_nth)

lemma buildGlyphIdMap_absent:
  "c \<notin> code ` set gs \<Longrightarrow> buildGlyphIdMap (Some gs) c = None"
  by (simp add: buildGlyphIdMap_fold glyph_id_fold_other)

lemma buildGlyphIdMap_Some:
  assumes "distinct (map code gs)" and "buildGlyphIdMap (Some gs) c = Some k"
  shows "\<exists>i<length gs. c = code (gs ! i) \<and> k = i + 1"
proof -
  have "c \<in> code ` set gs" using assms(2) buildGlyphIdMap_absent by fastforce
  then obtain i where i: "i < length gs" "c = code (gs ! i)"
    by (auto simp: in_set_conv_nth)
  with buildGlyphIdMap_nth [OF assms(1) i(1)] assms(2) show ?thesis by auto
qed

text \<open>
  Claim C5, as the code has it. \<open>buildGlyphIdMap\<close> numbers the glyphs by their position in
  the list it is given and does not sort: when that list is in strictly ascending order
  of code, the glyph at position \<open>i\<close> gets id \<open>i + 1\<close>, the ids are exactly \<open>1..N\<close> (0 is not
  used), the codes with an id are the codes of the list, and a smaller code has a smaller
  id.
\<close>

theorem ascending_glyphs_get_ascending_ids:
  assumes "sorted_wrt (<) (map code gs)"
  shows "(\<forall>i<length gs. buildGlyphIdMap (Some gs) (code (gs ! i)) = Some (i + 1)) \<and>
         dom (buildGlyphIdMap (Some gs)) = code ` set gs \<and>
         ran (buildGlyphIdMap (Some gs)) = {1..length gs} \<and>
         (\<forall>c1 c2 k1 k2. buildGlyphIdMap (Some gs) c1 = Some k1 \<longrightarrow>
            buildGlyphIdMap (Some gs) c2 = Some k2 \<longrightarrow> c1 < c2 \<longrightarrow> k1 < k2)"
proof -
  let ?m = "buildGlyphIdMap (Some gs)"
  have d: "distinct (map code gs)" using assms by (simp add: strict_sorted_iff)
  have nth: "\<forall>i<length gs. ?m (code (gs ! i)) = Some (i + 1)"
    using buildGlyphIdMap_nth [OF d] by blast
  have dom: "dom ?m = code ` set gs"
  proof
    show "dom ?m \<subseteq> code ` set gs" using buildGlyphIdMap_absent by fastforce
    show "code ` set gs \<subseteq> dom ?m"
    proof
      fix c assume "c \<in> code ` set gs"
      then obtain i where "i < length gs" "c = code (gs ! i)" by (auto simp: in_set_conv_nth)
      with nth show "c \<in> dom ?m" by auto
    qed
  qed
  have ran: "ran ?m = {1..length gs}"
  proof
    show "ran ?m \<subseteq> {1..length gs}"
    proof
      fix k assume "k \<in> ran ?m"
      then obtain c where "?m c = Some k" by (auto simp: ran_def)
      from buildGlyphIdMap_Some [OF d this] show "k \<in> {1..length gs}" by auto
    qed
    show "{1..length gs} \<subseteq> ran ?m"
    proof
      fix k assume "k \<in> {1..length gs}"
      then have "k - 1 < length gs" "k - 1 + 1 = k" by auto
      with nth have "?m (code (gs ! (k - 1))) = Some k" by metis
      then show "k \<in> ran ?m" by (auto simp: ran_def)
    qed
  qed
  have mono: "k1 < k2" if a: "?m c1 = Some k1" and b: "?m c2 = Some k2" and c: "c1 < c2"
    for c1 c2 k1 k2
  proof -
    from buildGlyphIdMap_Some [OF d a] obtain i where i: "i < length gs" "c1 = code (gs ! i)" "k1 = i + 1"
      by blast
    from buildGlyphIdMap_Some [OF d b] obtain j where j: "j < length gs" "c2 = code (gs ! j)" "k2 = j + 1"
      by blast
    have "i < j"
    proof (rule ccontr)
      assume "\<not> i < j"
      then have "j = i \<or> j < i" by auto
      then show False
      proof
        assume "j = i" with i j c show False by simp
      next
        assume "j < i"
        then have "map code gs ! j < map code gs ! i"
          using sorted_wrt_nth_less [OF assms, of j i] i by simp
        with i j c show False by simp
      qed
    qed
    with i j show ?thesis by simp
  qed
  from nth dom ran mono show ?thesis by blast
qed

theorem ascending_glyphs_get_ascending_ids_witness:
  "sorted_wrt (<) (map code (map example_glyph [65, 66, 97])) \<and>
   buildGlyphIdMap (Some (map example_glyph [65, 66, 97])) 65 = Some 1 \<and>
   buildGlyphIdMap (Some (map example_glyph [65, 66, 97])) 66 = Some 2 \<and>
   buildGlyphIdMap (Some (map example_glyph [65, 66, 97])) 97 = Some 3 \<and>
   ran (buildGlyphIdMap (Some (map example_glyph [65, 66, 97]))) = {1..3}"
proof -
  let ?gs = "map example_glyph [65, 66, 97]"
  have s: "sorted_wrt (<) (map code ?gs)" by (simp add: example_glyph_def)
  note t = ascending_glyphs_get_ascending_ids [OF s]
  have l: "length ?gs = 3" by simp
  from t have n: "\<forall>i<length ?gs. buildGlyphIdMap (Some ?gs) (code (?gs ! i)) = Some (i + 1)"
    and r: "ran (buildGlyphIdMap (Some ?gs)) = {1..length ?gs}" by blast+
  have c0: "code (?gs ! 0) = 65" and c1: "code (?gs ! 1) = 66" and c2: "code (?gs ! 2) = 97"
    by (simp_all add: example_glyph_def)
  have "buildGlyphIdMap (Some ?gs) 65 = Some 1"
    using n [rule_format, of 0] c0 by simp
  moreover have "buildGlyphIdMap (Some ?gs) 66 = Some 2"
    using n [rule_format, of 1] c1 by simp
  moreover have "buildGlyphIdMap (Some ?gs) 97 = Some 3"
    using n [rule_format, of 2] c2 by simp
  ultimately show ?thesis using s r by simp
qed

text \<open>
  Claim C5 as stated fails on a list that is not in ascending order: code 65 comes second
  and gets id 2, code 66 comes first and gets id 1.
\<close>

theorem unsorted_glyphs_get_descending_ids:
  "buildGlyphIdMap (Some (map example_glyph [66, 65])) 65 = Some 2 \<and>
   buildGlyphIdMap (Some (map example_glyph [66, 65])) 66 = Some 1 \<and>
   \<not> (the (buildGlyphIdMap (Some (map example_glyph [66, 65])) 65)
        < the (buildGlyphIdMap (Some (map example_glyph [66, 65])) 66))"
  by (simp add: buildGlyphIdMap_fold example_glyph_def)

lemma length_le_bytes [simp]: "length (le_bytes n v) = n"
  by (induction n arbitrary: v) simp_all

lemma setUint_zeros:
  "length pre = pos \<Longrightarrow> k \<le> n \<Longrightarrow>
   setUint k (pre @ replicate n 0) pos v = Inr ((pre @ le_bytes k v) @ replicate (n - k) 0)"
  by (simp add: setUint_def set_at_zeros)

lemma length_glyph_record [simp]: "length (glyph_record off g) = 16"
  by (simp add: glyph_record_def)

lemma write_glyph_dsc_zeros:
  assumes n: "16 \<le> n" and pos: "length pre = i * 16"
  shows "write_glyph_dsc (pre @ replicate n 0) i d
       = Inr ((pre @ entry_record d) @ replicate (n - 16) 0)"
proof -
  let ?g = "lv_glyph d"
  define p1 where "p1 = pre @ le_bytes 4 (int (lv_offset d))"
  define p2 where "p2 = p1 @ le_bytes 4 (round_q4 (advanceWidth ?g))"
  define p3 where "p3 = p2 @ le_bytes 2 (int (bbox_width ?g))"
  define p4 where "p4 = p3 @ le_bytes 2 (int (bbox_height ?g))"
  define p5 where "p5 = p4 @ le_bytes 2 (bbox_x ?g)"
  define p6 where "p6 = p5 @ le_bytes 2 (bbox_y ?g)"
  have l1: "length p1 = i * 16 + 4" by (simp add: p1_def pos)
  have l2: "length p2 = i * 16 + 8" by (simp add: p2_def l1)
  have l3: "length p3 = i * 16 + 10" by (simp add: p3_def l2)
  have l4: "length p4 = i * 16 + 12" by (simp add: p4_def l3)
  have l5: "length p5 = i * 16 + 14" by (simp add: p5_def l4)
  have s1: "setUint 4 (pre @ replicate n 0) (i * 16) (int (lv_offset d)) = Inr (p1 @ replicate (n - 4) 0)"
    unfolding p1_def using n pos by (intro setUint_zeros) simp_all
  have s2: "setUint 4 (p1 @ replicate (n - 4) 0) (i * 16 + 4) (round_q4 (advanceWidth ?g))
      = Inr (p2 @ replicate (n - 4 - 4) 0)"
    unfolding p2_def using n l1 by (intro setUint_zeros) simp_all
  have s3: "setUint 2 (p2 @ replicate (n - 4 - 4) 0) (i * 16 + 8) (int (bbox_width ?g))
      = Inr (p3 @ replicate (n - 4 - 4 - 2) 0)"
    unfolding p3_def using n l2 by (intro setUint_zeros) simp_all
  have s4: "setUint 2 (p3 @ replicate (n - 4 - 4 - 2) 0) (i * 16 + 10) (int (bbox_height ?g))
      = Inr (p4 @ replicate (n - 4 - 4 - 2 - 2) 0)"
    unfolding p4_def using n l3 by (intro setUint_zeros) simp_all
  have s5: "setUint 2 (p4 @ replicate (n - 4 - 4 - 2 - 2) 0) (i * 16 + 12) (bbox_x ?g)
      = Inr (p5 @ replicate (n - 4 - 4 - 2 - 2 - 2) 0)"
    unfolding p5_def using n l4 by (intro setUint_zeros) simp_all
  have s6: "setUint 2 (p5 @ replicate (n - 4 - 4 - 2 - 2 - 2) 0) (i * 16 + 14) (bbox_y ?g)
      = Inr (p6 @ replicate (n - 4 - 4 - 2 - 2 - 2 - 2) 0)"
    unfolding p6_def using n l5 by (intro setUint_zeros) simp_all
  have p: "p6 = pre @ entry_record d"
    by (simp add: p6_def p5_def p4_def p3_def p2_def p1_def entry_record_def glyph_record_def)
  have e: "n - 4 - 4 - 2 - 2 - 2 - 2 = n - 16" by simp
  show ?thesis
    by (simp only: write_glyph_dsc_def s1 s2 s3 s4 s5 s6 bindE_Inr p e)
qed

lemma glyph_dsc_loop_zeros:
  "16 * length es \<le> n \<Longrightarrow> length pre = i * 16 \<Longrightarrow>
   glyph_dsc_loop (map Some es) (pre @ replicate n 0) i
     = Inr (pre @ concat (map entry_record es) @ replicate (n - 16 * length es) 0)"
proof (induction es arbitrary: pre n i)
  case Nil
  then show ?case by simp
next
  case (Cons d es)
  have n: "16 \<le> n" using Cons.prems(1) by simp
  have r: "16 * length es \<le> n - 16" using Cons.prems(1) by simp
  have l: "length (pre @ entry_record d) = (i + 1) * 16"
    using Cons.prems(2) by (simp add: entry_record_def)
  have "glyph_dsc_loop (map Some (d # es)) (pre @ replicate n 0) i
      = glyph_dsc_loop (map Some es) ((pre @ entry_record d) @ replicate (n - 16) 0) (i + 1)"
    by (simp add: write_glyph_dsc_zeros [OF n Cons.prems(2)])
  also have "\<dots> = Inr ((pre @ entry_record d) @ concat (map entry_record es)
      @ replicate (n - 16 - 16 * length es) 0)"
    by (rule Cons.IH [OF r l])
  also have "\<dots> = Inr (pre @ concat (map entry_record (d # es))
      @ replicate (n - 16 * length (d # es)) 0)"
    by simp
  finally show ?case .
qed

lemma length_lv_entries [simp]: "length (lv_entries options gs off) = length gs"
  by (induction gs arbitrary: off) simp_all

lemma lv_entries_nth:
  "i < length gs \<Longrightarrow>
   lv_entries options gs off ! i =
     \<lparr>lv_bin = lv_bitmap options (gs ! i), lv_offset = off + bitmap_offset options gs i,
      lv_glyph = gs ! i\<rparr>"
proof (induction gs arbitrary: off i)
  case Nil
  then show ?case by simp
next
  case (Cons g gs)
  show ?case
  proof (cases i)
    case 0
    then show ?thesis by (simp add: bitmap_offset_def)
  next
    case (Suc k)
    have "bitmap_offset options (g # gs) (Suc k)
        = length (lv_bitmap options g) + bitmap_offset options gs k"
      unfolding bitmap_offset_def sum.lessThan_Suc_shift by simp
    then show ?thesis using Cons Suc by simp
  qed
qed

lemma map_lv_bin_entries: "map lv_bin (lv_entries options gs off) = map (lv_bitmap options) gs"
  by (induction gs arbitrary: off) simp_all

lemma lv_compile_loop_append:
  "lv_data \<noteq> [] \<Longrightarrow>
   (\<And>j. j < length gs \<Longrightarrow> glyph_id f (code (gs ! j)) = Some (length lv_data + j)) \<Longrightarrow>
   lv_compile_loop f gs lv_data off = lv_data @ map Some (lv_entries (opts f) gs off)"
proof (induction gs arbitrary: lv_data off)
  case Nil
  then show ?case by simp
next
  case (Cons g gs)
  let ?e = "\<lparr>lv_bin = lv_bitmap (opts f) g, lv_offset = off, lv_glyph = g\<rparr>"
  have g: "glyph_id f (code g) = Some (length lv_data)"
    using Cons.prems(2) [of 0] by simp
  have ids: "\<And>j. j < length gs \<Longrightarrow> glyph_id f (code (gs ! j)) = Some (length (lv_data @ [Some ?e]) + j)"
    using Cons.prems(2) by fastforce
  have "lv_compile_loop f (g # gs) lv_data off
      = lv_compile_loop f gs (lv_data @ [Some ?e]) (off + length (lv_bitmap (opts f) g))"
    by (simp add: g arr_set_def Let_def)
  also have "\<dots> = (lv_data @ [Some ?e])
      @ map Some (lv_entries (opts f) gs (off + length (lv_bitmap (opts f) g)))"
    by (rule Cons.IH [OF _ ids]) simp_all
  finally show ?case by simp
qed

lemma lv_compile_loop_start:
  assumes "gs \<noteq> []"
    and ids: "\<And>j. j < length gs \<Longrightarrow> glyph_id f (code (gs ! j)) = Some (j + 1)"
  shows "lv_compile_loop f gs [] 0 = None # map Some (lv_entries (opts f) gs 0)"
proof -
  from assms(1) obtain g rest where gs: "gs = g # rest" by (cases gs) auto
  let ?e = "\<lparr>lv_bin = lv_bitmap (opts f) g, lv_offset = 0, lv_glyph = g\<rparr>"
  have g: "glyph_id f (code g) = Some 1" using ids [of 0] gs by simp
  have r: "\<And>j. j < length rest \<Longrightarrow> glyph_id f (code (rest ! j)) = Some (length [None, Some ?e] + j)"
    using ids gs by fastforce
  have "lv_compile_loop f gs [] 0
      = lv_compile_loop f rest [None, Some ?e] (length (lv_bitmap (opts f) g))"
    by (simp add: gs g arr_set_def Let_def)
  also have "\<dots> = [None, Some ?e] @ map Some (lv_entries (opts f) rest (length (lv_bitmap (opts f) g)))"
    by (rule lv_compile_loop_append [OF _ r]) simp_all
  finally show ?thesis by (simp add: gs)
qed

lemma map_filter_Some [simp]: "List.map_filter (\<lambda>d. d) (map Some xs) = xs"
  by (induction xs) (simp_all add: List.map_filter_simps)

lemma glyf_toCBin_eq:
  assumes f: "CBinFont_new fontData options = Inr f"
    and gl: "glyphs fontData = Some gs" and ne: "gs \<noteq> []" and d: "distinct (map code gs)"
  shows "glyf_toCBin f =
     Inr (balign4 (concat (map (lv_bitmap options) gs)),
          replicate 16 0 @ concat (map entry_record (lv_entries options gs 0)) @ replicate 16 0)"
proof -
  have sf: "src f = fontData" and of: "opts f = options"
    and gid: "glyph_id f = buildGlyphIdMap (Some gs)"
    using f gl by (auto simp: CBinFont_new_def split: if_splits)
  have ids: "\<And>j. j < length gs \<Longrightarrow> glyph_id f (code (gs ! j)) = Some (j + 1)"
    by (simp add: gid buildGlyphIdMap_nth [OF d])
  let ?es = "lv_entries options gs 0"
  have c: "lv_compile f = Inr (None # map Some ?es)"
    using lv_compile_loop_start [OF ne ids] by (simp add: lv_compile_def sf gl of)
  have z: "replicate (length (None # map Some ?es) * 16 + 16) (0 :: byte)
      = replicate 16 0 @ replicate (16 * length gs + 16) 0"
    by (simp add: replicate_add [symmetric] mult.commute)
  have "glyph_dsc_loop (None # map Some ?es) (replicate 16 0 @ replicate (16 * length gs + 16) 0) 1
      = glyph_dsc_loop (map Some ?es) (replicate 16 0 @ replicate (16 * length gs + 16) 0) 1"
    by simp
  also have "\<dots> = Inr (replicate 16 0 @ concat (map entry_record ?es)
      @ replicate (16 * length gs + 16 - 16 * length ?es) 0)"
    by (rule glyph_dsc_loop_zeros) simp_all
  finally have l: "glyph_dsc_loop (None # map Some ?es)
      (replicate (length (None # map Some ?es) * 16 + 16) 0) 1
      = Inr (replicate 16 0 @ concat (map entry_record ?es) @ replicate 16 0)"
    by (simp only: z) simp
  show ?thesis
    unfolding glyf_toCBin_def c bindE_Inr Let_def l
    by (simp add: map_lv_bin_entries)
qed

lemma example_font_new: "CBinFont_new (example_font codes) example_args = Inr (example_cbinfont codes)"
  by (simp add: CBinFont_new_def example_args_def example_cbinfont_def example_font_def)

text \<open>
  Claim C4, as the code has it. For a font with \<open>N \<ge> 1\<close> glyphs of distinct codes (so that
  the glyph at position \<open>i - 1\<close> of the list has id \<open>i\<close>), the descriptor section is
  \<open>16 * (N + 2)\<close> bytes long: the buffer is allocated with \<open>lv_data.length * 16 + 16\<close> bytes
  and \<open>lv_data.length\<close> is \<open>N + 1\<close>. Record 0 is all zeros, record \<open>i\<close> for \<open>1 \<le> i \<le> N\<close> is the
  little-endian record of the glyph with id \<open>i\<close> (the offset of its bitmap, the rounded
  advance width times 16, width, height, x, y), and one more all-zero record follows.
\<close>

theorem glyph_descriptors_have_a_trailing_record:
  assumes "CBinFont_new fontData options = Inr f"
    and "glyphs fontData = Some gs" and "gs \<noteq> []" and "distinct (map code gs)"
  shows "\<exists>bitmap dsc. glyf_toCBin f = Inr (bitmap, dsc) \<and>
           length dsc = 16 * (length gs + 2) \<and>
           slice dsc 0 16 = replicate 16 0 \<and>
           (\<forall>i. 1 \<le> i \<and> i \<le> length gs \<longrightarrow>
              glyph_id f (code (gs ! (i - 1))) = Some i \<and>
              slice dsc (16 * i) 16
                = glyph_record (bitmap_offset options gs (i - 1)) (gs ! (i - 1))) \<and>
           slice dsc (16 * (length gs + 1)) 16 = replicate 16 0"
proof -
  let ?es = "lv_entries options gs 0"
  let ?mid = "concat (map entry_record ?es)"
  let ?dsc = "replicate 16 0 @ ?mid @ replicate 16 (0 :: byte)"
  have g: "glyf_toCBin f = Inr (balign4 (concat (map (lv_bitmap options) gs)), ?dsc)"
    by (rule glyf_toCBin_eq [OF assms])
  have gid: "glyph_id f = buildGlyphIdMap (Some gs)"
    using assms(1,2) by (auto simp: CBinFont_new_def split: if_splits)
  have all16: "list_all (\<lambda>x. length x = 16) (map entry_record ?es)"
    by (simp add: list_all_iff entry_record_def)
  have lm: "length ?mid = 16 * length gs"
    by (induction gs rule: lv_entries.induct [of _ options _ 0])
       (simp_all add: entry_record_def length_concat sum_list_triv o_def)
  have len: "length ?dsc = 16 * (length gs + 2)" by (simp add: lm)
  have r0: "slice ?dsc 0 16 = replicate 16 0" by (simp add: slice_def)
  have rl: "slice ?dsc (16 * (length gs + 1)) 16 = replicate 16 0"
    by (simp add: slice_def lm)
  have ri: "glyph_id f (code (gs ! (i - 1))) = Some i \<and>
      slice ?dsc (16 * i) 16 = glyph_record (bitmap_offset options gs (i - 1)) (gs ! (i - 1))"
    if i: "1 \<le> i \<and> i \<le> length gs" for i
  proof -
    have k: "i - 1 < length gs" and e: "i - 1 + 1 = i" using i by auto
    have a: "glyph_id f (code (gs ! (i - 1))) = Some i"
      using buildGlyphIdMap_nth [OF assms(4) k] e by (simp add: gid)
    have "slice ?dsc (length (replicate 16 (0 :: byte)) + 16 * (i - 1)) 16
        = slice (?mid @ replicate 16 0) (16 * (i - 1)) 16"
      by (rule slice_append_right)
    also have "\<dots> = slice ?mid (16 * (i - 1)) 16"
      by (rule slice_append_left) (use k lm in simp)
    also have "\<dots> = map entry_record ?es ! (i - 1)"
      by (rule concat_fixed_slice [OF all16]) (use k in simp)
    also have "\<dots> = glyph_record (bitmap_offset options gs (i - 1)) (gs ! (i - 1))"
      using k by (simp add: entry_record_def lv_entries_nth)
    finally have b: "slice ?dsc (16 * i) 16
        = glyph_record (bitmap_offset options gs (i - 1)) (gs ! (i - 1))"
      using i by (simp add: algebra_simps)
    from a b show ?thesis by simp
  qed
  from g len r0 rl ri show ?thesis by blast
qed

theorem glyph_descriptors_have_a_trailing_record_witness:
  "CBinFont_new (example_font [65, 66]) example_args = Inr (example_cbinfont [65, 66]) \<and>
   glyphs (example_font [65, 66]) = Some (map example_glyph [65, 66]) \<and>
   map example_glyph [65, 66] \<noteq> [] \<and>
   distinct (map code (map example_glyph [65, 66])) \<and>
   (\<exists>bitmap dsc. glyf_toCBin (example_cbinfont [65, 66]) = Inr (bitmap, dsc) \<and>
      length dsc = 64 \<and>
      slice dsc 0 16 = replicate 16 0 \<and>
      slice dsc 48 16 = replicate 16 0)"
proof -
  let ?gs = "map example_glyph [65, 66]"
  have a: "CBinFont_new (example_font [65, 66]) example_args = Inr (example_cbinfont [65, 66])"
    by (rule example_font_new)
  have b: "glyphs (example_font [65, 66]) = Some ?gs" by (simp add: example_font_def)
  have c: "?gs \<noteq> []" by simp
  have d: "distinct (map code ?gs)" by (simp add: example_glyph_def)
  from glyph_descriptors_have_a_trailing_record [OF a b c d]
  obtain bitmap dsc where "glyf_toCBin (example_cbinfont [65, 66]) = Inr (bitmap, dsc)"
    and "length dsc = 16 * (length ?gs + 2)" and "slice dsc 0 16 = replicate 16 0"
    and "slice dsc (16 * (length ?gs + 1)) 16 = replicate 16 0"
    by blast
  then have "glyf_toCBin (example_cbinfont [65, 66]) = Inr (bitmap, dsc) \<and>
      length dsc = 64 \<and> slice dsc 0 16 = replicate 16 0 \<and> slice dsc 48 16 = replicate 16 0"
    by simp
  with a b c d show ?thesis by blast
qed

lemma take_one_updated: "0 < n \<Longrightarrow> take (Suc 0) ((replicate n z)[0 := v]) = [v]"
  by (cases n) simp_all

lemma example_round: "round_q4 (17 / 2) = 136"
  by code_simp

lemma example_bitmap: "lv_bitmap example_args (example_glyph c) = [0xF8]"
  by (simp add: take_one_updated lv_bitmap_def example_args_def example_glyph_def storePixels_def
      storePixelsRaw_def pixelsToBpp_def getCompressionCode_def getUsedBytes_def
      writeBits.simps shift_right_def or_at_def Let_def)

theorem one_glyph_gives_48_descriptor_bytes:
  "CBinFont_new (example_font [65]) example_args = Inr (example_cbinfont [65]) \<and>
   glyf_toCBin (example_cbinfont [65]) =
     Inr ([0xF8, 0, 0, 0],
          [0, 0, 0, 0, 0, 0, 0, 0, 0, 0, 0, 0, 0, 0, 0, 0,
           0, 0, 0, 0, 136, 0, 0, 0, 2, 0, 1, 0, 255, 255, 2, 0,
           0, 0, 0, 0, 0, 0, 0, 0, 0, 0, 0, 0, 0, 0, 0, 0]) \<and>
   length [0, 0, 0, 0, 0, 0, 0, 0, 0, 0, 0, 0, 0, 0, 0, 0,
           0, 0, 0, 0, 136, 0, 0, 0, 2, 0, 1, 0, 255, 255, 2, 0,
           0, 0, 0, 0, 0, 0, 0, 0, 0, 0, 0, 0, 0, 0, 0, 0 :: byte] \<noteq> 16 * (1 + 1)"
proof -
  have a: "CBinFont_new (example_font [65]) example_args = Inr (example_cbinfont [65])"
    by (rule example_font_new)
  have b: "glyphs (example_font [65]) = Some [example_glyph 65]" by (simp add: example_font_def)
  have d: "distinct (map code [example_glyph 65])" by simp
  have r: "glyph_record 0 (example_glyph 65) = [0, 0, 0, 0, 136, 0, 0, 0, 2, 0, 1, 0, 255, 255, 2, 0]"
    by (simp add: glyph_record_def example_glyph_def example_round eval_nat_numeral)
  have z: "replicate 16 (0 :: byte) = [0, 0, 0, 0, 0, 0, 0, 0, 0, 0, 0, 0, 0, 0, 0, 0]"
    by (simp add: eval_nat_numeral)
  have z3: "replicate 3 (0 :: byte) = [0, 0, 0]"
    by (simp add: numeral_3_eq_3)
  have bm: "balign4 (concat (map (lv_bitmap example_args) [example_glyph 65])) = [0xF8, 0, 0, 0]"
    by (simp add: example_bitmap balign4_def z3)
  have es: "concat (map entry_record (lv_entries example_args [example_glyph 65] 0))
      = [0, 0, 0, 0, 136, 0, 0, 0, 2, 0, 1, 0, 255, 255, 2, 0]"
    by (simp add: entry_record_def r)
  have "glyf_toCBin (example_cbinfont [65]) =
     Inr (balign4 (concat (map (lv_bitmap example_args) [example_glyph 65])),
          replicate 16 0 @ concat (map entry_record (lv_entries example_args [example_glyph 65] 0))
          @ replicate 16 0)"
    by (rule glyf_toCBin_eq [OF a b _ d]) simp
  then have g: "glyf_toCBin (example_cbinfont [65]) =
     Inr ([0xF8, 0, 0, 0],
          [0, 0, 0, 0, 0, 0, 0, 0, 0, 0, 0, 0, 0, 0, 0, 0,
           0, 0, 0, 0, 136, 0, 0, 0, 2, 0, 1, 0, 255, 255, 2, 0,
           0, 0, 0, 0, 0, 0, 0, 0, 0, 0, 0, 0, 0, 0, 0, 0])"
    by (simp only: bm es z append.simps)
  have l: "length [0, 0, 0, 0, 0, 0, 0, 0, 0, 0, 0, 0, 0, 0, 0, 0,
           0, 0, 0, 0, 136, 0, 0, 0, 2, 0, 1, 0, 255, 255, 2, 0,
           0, 0, 0, 0, 0, 0, 0, 0, 0, 0, 0, 0, 0, 0, 0, 0 :: byte] \<noteq> 16 * (1 + 1)"
    by simp
  from a g l show ?thesis by (intro conjI)
qed

subsection \<open>CmapTable\<close>

lemma writePTR_four: "writePTR 4 view v pos = setUint 4 view pos v"
  by (simp add: writePTR_def)

lemma cmap_head_writes:
  "bindE (setUint 4 (replicate 20 0) 0 a) (\<lambda>v1.
   bindE (setUint 2 v1 4 b) (\<lambda>v2.
   bindE (setUint 2 v2 6 c) (\<lambda>v3.
   bindE (setUint 4 v3 8 d) (\<lambda>v4.
   bindE (setUint 4 v4 12 e) (\<lambda>v5.
   bindE (setUint 2 v5 16 k) (\<lambda>v6.
   bindE (setUint (Suc 0) v6 18 m) (\<lambda>v7. F v7)))))))
   = F (le_bytes 4 a @ le_bytes 2 b @ le_bytes 2 c @ le_bytes 4 d @ le_bytes 4 e
        @ le_bytes 2 k @ le_bytes 1 m @ [0])"
proof -
  define p1 where "p1 = le_bytes 4 a"
  define p2 where "p2 = p1 @ le_bytes 2 b"
  define p3 where "p3 = p2 @ le_bytes 2 c"
  define p4 where "p4 = p3 @ le_bytes 4 d"
  define p5 where "p5 = p4 @ le_bytes 4 e"
  define p6 where "p6 = p5 @ le_bytes 2 k"
  define p7 where "p7 = p6 @ le_bytes 1 m"
  have l1: "length p1 = 4" by (simp add: p1_def)
  have l2: "length p2 = 6" by (simp add: p2_def l1)
  have l3: "length p3 = 8" by (simp add: p3_def l2)
  have l4: "length p4 = 12" by (simp add: p4_def l3)
  have l5: "length p5 = 16" by (simp add: p5_def l4)
  have l6: "length p6 = 18" by (simp add: p6_def l5)
  have s1: "setUint 4 (replicate 20 0) 0 a = Inr (p1 @ replicate 16 0)"
    using setUint_zeros [of "[]" 0 4 20 a] by (simp add: p1_def)
  have s2: "setUint 2 (p1 @ replicate 16 0) 4 b = Inr (p2 @ replicate 14 0)"
    using setUint_zeros [of p1 4 2 16] l1 by (simp add: p2_def)
  have s3: "setUint 2 (p2 @ replicate 14 0) 6 c = Inr (p3 @ replicate 12 0)"
    using setUint_zeros [of p2 6 2 14] l2 by (simp add: p3_def)
  have s4: "setUint 4 (p3 @ replicate 12 0) 8 d = Inr (p4 @ replicate 8 0)"
    using setUint_zeros [of p3 8 4 12] l3 by (simp add: p4_def)
  have s5: "setUint 4 (p4 @ replicate 8 0) 12 e = Inr (p5 @ replicate 4 0)"
    using setUint_zeros [of p4 12 4 8] l4 by (simp add: p5_def)
  have s6: "setUint 2 (p5 @ replicate 4 0) 16 k = Inr (p6 @ replicate 2 0)"
    using setUint_zeros [of p5 16 2 4] l5 by (simp add: p6_def)
  have s7: "setUint (Suc 0) (p6 @ replicate 2 0) 18 m = Inr (p7 @ replicate 1 0)"
    using setUint_zeros [of p6 18 1 2] l6 by (simp add: p7_def)
  have h: "p7 @ replicate 1 0 = le_bytes 4 a @ le_bytes 2 b @ le_bytes 2 c @ le_bytes 4 d
      @ le_bytes 4 e @ le_bytes 2 k @ le_bytes 1 m @ [0]"
    by (simp add: p7_def p6_def p5_def p4_def p3_def p2_def p1_def)
  show ?thesis by (simp only: s1 s2 s3 s4 s5 s6 s7 bindE_Inr h)
qed

lemma cmap_round_first:
  assumes g: "glyphByCode f c0 = Some g"
    and p: "cmap_payload f fmt (c0 # rest) c0 (last (c0 # rest)) (glyph_id f (code g))
              = Inr (hc, hi, cnt, up, gp)"
  shows "cmap_round f 4 \<lparr>cmaps_view = replicate 20 0, total_data_offset = 20, arr_list = [], idx = 0\<rparr>
           (fmt, c0 # rest)
       = Inr \<lparr>cmaps_view = cmap_head c0 (last (c0 # rest)) (stored_num (nat_num (glyph_id f (code g))))
                 (if hc then 20 else 0) (if hi then int (20 + length up) else 0) cnt fmt,
              total_data_offset = 20 + length up + length gp,
              arr_list = [up, gp], idx = 1\<rparr>"
  using p unfolding cmap_round_def
  by (simp add: g cmap_size_def writePTR_four cmap_head_writes cmap_head_def)

lemma le_bytes_one: "le_bytes 1 v = [of_int (v mod 256)]"
  by (simp add: eval_nat_numeral)

lemma uint8_bytes_map: "uint8_bytes d = map (\<lambda>x. of_int (stored_num x mod 256)) d"
  by (induction d) (simp_all add: uint8_bytes_def le_bytes_one)

lemma balign4_prefix: "i < length xs \<Longrightarrow> balign4 xs ! i = xs ! i"
  by (simp add: balign4_def Let_def nth_append)

lemma length_balign4: "length (balign4 xs) = (length xs + 3) div 4 * 4"
  by (simp add: balign4_def Let_def) presburger

lemma format0_data_nth:
  assumes "c0 \<le> c" and "c \<le> mx"
  shows "uint8_bytes (collect_format0_data f c0 mx (Some s)) ! (c - c0) = format0_byte f s c"
proof -
  have i: "c - c0 < length [c0..<Suc mx]" using assms by simp
  have n: "[c0..<Suc mx] ! (c - c0) = c" using assms by (simp del: upt_Suc)
  show ?thesis
    unfolding uint8_bytes_map collect_format0_data_def
    using i n
    by (simp add: format0_byte_def sub_num_def stored_num_def Let_def del: upt_Suc
        split: option.split)
qed

lemma format0_bytes_map:
  "uint8_bytes (collect_format0_data f a b (Some s)) = map (format0_byte f s) [a..<Suc b]"
  unfolding uint8_bytes_map collect_format0_data_def map_map
  by (rule map_cong [OF refl])
     (simp add: format0_byte_def sub_num_def stored_num_def Let_def split: option.split)

lemma length_format0_data: "length (uint8_bytes (collect_format0_data f c0 mx st)) = Suc mx - c0"
  by (simp add: uint8_bytes_map collect_format0_data_def del: upt_Suc)

lemma sparse_loop_rejects:
  assumes "c \<in> set cs" and "glyphByCode f c = Some g" and "glyph_id f (code g) = Some i"
    and "65535 < int i - int s"
  shows "\<exists>e. sparse_loop f first (Some s) cs cl il = Inl e"
  using assms(1)
proof (induction cs arbitrary: cl il)
  case Nil
  then show ?case by simp
next
  case (Cons x xs)
  show ?case
  proof (cases "x = c")
    case True
    then show ?thesis using assms(2,3,4) by (simp add: Let_def sub_num_def)
  next
    case False
    then have "c \<in> set xs" using Cons.prems by simp
    from Cons.IH [OF this] show ?thesis
      by (auto simp: Let_def split: option.split)
  qed
qed

lemma collect_sparse_rejects:
  assumes "c \<in> set cs" and "glyphByCode f c = Some g" and "glyph_id f (code g) = Some i"
    and "65535 < int i - int s"
  shows "\<exists>e. collect_sparse_data f cs (Some s) = Inl e"
proof -
  from assms(1) obtain x xs where cs: "cs = x # xs" by (cases cs) auto
  show ?thesis
    unfolding collect_sparse_data_def cs list.case
    using sparse_loop_rejects [OF assms(1) assms(2,3,4), of x "[]" "[]"] cs by simp
qed

text \<open>
  Claim C10. For a font whose plan is the one full Format0 subtable over the codes
  \<open>c0 .. last\<close>, \<open>CmapTable.toCBin\<close> returns, after the 20-byte head of the subtable, one byte
  per code: \<open>(glyphId - startGlyphId) mod 256\<close> for a code with a glyph, 0 for a code without
  one; no delta makes it raise. The sparse formats raise as soon as a code's glyph id is
  more than 65535 above the start id.
\<close>

theorem format0_stores_deltas_modulo_256:
  assumes "glyphs (src f) = Some gs" and "gs \<noteq> []"
    and "pl (map code gs) = [(format0, c0 # rest)]"
    and "glyphByCode f c0 = Some g" and "glyph_id f (code g) = Some s"
  shows "\<exists>out. cmap_toCBin pl f 4 = Inr out \<and>
           take 20 out = cmap_head c0 (last (c0 # rest)) (int s) 0 20 (Suc (last (c0 # rest)) - c0) format0 \<and>
           length out = 20 + (Suc (last (c0 # rest)) - c0 + 3) div 4 * 4 \<and>
           (\<forall>c. c0 \<le> c \<and> c \<le> last (c0 # rest) \<longrightarrow>
              out ! (20 + (c - c0)) = format0_byte f s c \<and>
              (\<forall>i. glyph_id f c = Some i \<and> i \<noteq> 0 \<longrightarrow>
                 unat (out ! (20 + (c - c0))) = nat ((int i - int s) mod 256)) \<and>
              (glyph_id f c = None \<longrightarrow> out ! (20 + (c - c0)) = 0)) \<and>
           (\<forall>cs a b. cmap_payload f format0 cs a b (Some s)
              = Inr (False, True, Suc b - a, [], balign4 (map (format0_byte f s) [a..<Suc b]))) \<and>
           (\<forall>fmt cs c g' i. (fmt = sparse \<or> fmt = sparse_tiny) \<and> c \<in> set cs \<and>
              glyphByCode f c = Some g' \<and> glyph_id f (code g') = Some i \<and>
              65535 < int i - int s \<longrightarrow>
              (\<exists>e. cmap_payload f fmt cs c0 (last (c0 # rest)) (Some s) = Inl e))"
proof -
  let ?mx = "last (c0 # rest)"
  let ?d = "uint8_bytes (collect_format0_data f c0 ?mx (Some s))"
  let ?head = "cmap_head c0 ?mx (int s) 0 20 (Suc ?mx - c0) format0"
  let ?out = "?head @ balign4 ?d"
  have pay: "cmap_payload f format0 (c0 # rest) c0 ?mx (glyph_id f (code g))
      = Inr (False, True, Suc ?mx - c0, [], balign4 ?d)"
    by (simp add: cmap_payload_def assms(5) Let_def collect_format0_data_def del: upt_Suc)
  have rnd: "cmap_round f 4
        \<lparr>cmaps_view = replicate 20 0, total_data_offset = 20, arr_list = [], idx = 0\<rparr>
        (format0, c0 # rest)
      = Inr \<lparr>cmaps_view = ?head, total_data_offset = 20 + length ([] :: byte list) + length (balign4 ?d),
             arr_list = [[], balign4 ?d], idx = 1\<rparr>"
    using cmap_round_first [OF assms(4) pay]
    by (simp add: assms(5) stored_num_def nat_num_def)
  have out: "cmap_toCBin pl f 4 = Inr ?out"
    unfolding cmap_toCBin_def
    by (simp add: assms(1,2,3) Let_def cmap_size_def rnd)
  have lh: "length ?head = 20" by (simp add: cmap_head_def)
  have hd: "take 20 ?out = ?head" using lh by simp
  have len: "length ?out = 20 + (Suc ?mx - c0 + 3) div 4 * 4"
    by (simp only: length_append lh length_balign4 length_format0_data)
  have byte: "?out ! (20 + (c - c0)) = format0_byte f s c" if "c0 \<le> c \<and> c \<le> ?mx" for c
  proof -
    have i: "c - c0 < length ?d" using that by (simp only: length_format0_data) auto
    have "?out ! (20 + (c - c0)) = balign4 ?d ! (c - c0)"
      using lh by (simp add: nth_append)
    also have "\<dots> = ?d ! (c - c0)" by (rule balign4_prefix [OF i])
    also have "\<dots> = format0_byte f s c" using that by (intro format0_data_nth) simp_all
    finally show ?thesis .
  qed
  have un: "unat (format0_byte f s c) = nat ((int i - int s) mod 256)"
    if "glyph_id f c = Some i \<and> i \<noteq> 0" for c i
  proof -
    have "uint (word_of_int ((int i - int s) mod 256) :: byte) = (int i - int s) mod 256"
      by (simp add: uint_word_of_int)
    then show ?thesis using that by (simp add: format0_byte_def unat_eq_nat_uint)
  qed
  have none: "format0_byte f s c = 0" if "glyph_id f c = None" for c
    using that by (simp add: format0_byte_def)
  have gen: "cmap_payload f format0 cs a b (Some s)
      = Inr (False, True, Suc b - a, [], balign4 (map (format0_byte f s) [a..<Suc b]))" for cs a b
  proof -
    have "length (collect_format0_data f a b (Some s)) = Suc b - a"
      by (simp add: collect_format0_data_def del: upt_Suc)
    then show ?thesis
      by (simp only: cmap_payload_def cmap_format.case Let_def format0_bytes_map)
  qed
  have sp: "\<exists>e. cmap_payload f fmt cs c0 ?mx (Some s) = Inl e"
    if "(fmt = sparse \<or> fmt = sparse_tiny) \<and> c \<in> set cs \<and>
        glyphByCode f c = Some g' \<and> glyph_id f (code g') = Some i \<and> 65535 < int i - int s"
    for fmt cs c g' i
  proof -
    from that obtain e where "collect_sparse_data f cs (Some s) = Inl e"
      using collect_sparse_rejects by blast
    then show ?thesis using that by (auto simp: cmap_payload_def)
  qed
  show ?thesis
    apply (rule exI [of _ ?out])
    apply (intro conjI allI impI)
    subgoal by (rule out)
    subgoal by (rule hd)
    subgoal by (rule len)
    subgoal for c by (rule byte)
    subgoal for c i using byte [of c] un [of c i] by simp
    subgoal for c using byte [of c] none [of c] by simp
    subgoal for cs a b by (rule gen)
    subgoal for fmt cs c g' i by (rule sp)
    done
qed

lemma wide_codes_facts:
  "length wide_codes = 300" "distinct wide_codes" "wide_codes = 32 # [33..<332]"
  "wide_codes ! 256 = 288" "last (32 # [33..<332]) = 331"
  by (simp_all add: wide_codes_def upt_conv_Cons last_upt del: upt_rec_numeral upt_Suc)

lemma code_example_glyphs: "map code (map example_glyph cs) = cs"
  by (induction cs) (simp_all add: example_glyph_def)

theorem format0_stores_deltas_modulo_256_witness:
  "glyphs (src (example_cbinfont wide_codes)) = Some (map example_glyph wide_codes) \<and>
   map example_glyph wide_codes \<noteq> [] \<and>
   example_planner (map code (map example_glyph wide_codes)) = [(format0, 32 # [33..<332])] \<and>
   glyphByCode (example_cbinfont wide_codes) 32 = Some (example_glyph 32) \<and>
   glyph_id (example_cbinfont wide_codes) (code (example_glyph 32)) = Some 1 \<and>
   glyph_id (example_cbinfont wide_codes) 288 = Some 257 \<and>
   (255 :: int) < int 257 - int 1 \<and>
   (\<exists>out. cmap_toCBin example_planner (example_cbinfont wide_codes) 4 = Inr out \<and>
      length out = 320 \<and>
      out ! (20 + (288 - 32)) = 0)"
proof -
  let ?f = "example_cbinfont wide_codes"
  let ?gs = "map example_glyph wide_codes"
  have d: "distinct (map code ?gs)" by (simp only: code_example_glyphs wide_codes_facts(2))
  have a1: "glyphs (src ?f) = Some ?gs" by (simp add: example_cbinfont_def example_font_def)
  have a2: "?gs \<noteq> []" using wide_codes_facts(1) by auto
  have a3: "example_planner (map code ?gs) = [(format0, 32 # [33..<332])]"
    by (simp only: code_example_glyphs example_planner_def) (simp only: wide_codes_facts(3))
  have gs: "?gs = example_glyph 32 # map example_glyph [33..<332]"
    by (simp only: wide_codes_facts(3) list.map)
  have a4: "glyphByCode ?f 32 = Some (example_glyph 32)"
    unfolding glyphByCode_def a1 option.case gs by (simp add: example_glyph_def)
  have gid: "glyph_id ?f = buildGlyphIdMap (Some ?gs)" by (simp add: example_cbinfont_def)
  have "buildGlyphIdMap (Some ?gs) (code (?gs ! 0)) = Some (0 + 1)"
    by (rule buildGlyphIdMap_nth [OF d]) (simp add: wide_codes_facts(1))
  moreover have "?gs ! 0 = example_glyph 32" by (simp only: gs nth_Cons_0)
  ultimately have a5: "glyph_id ?f (code (example_glyph 32)) = Some 1" by (simp add: gid)
  have "buildGlyphIdMap (Some ?gs) (code (?gs ! 256)) = Some (256 + 1)"
    by (rule buildGlyphIdMap_nth [OF d]) (simp add: wide_codes_facts(1))
  moreover have "code (?gs ! 256) = 288"
    using wide_codes_facts(1,4) by (simp add: example_glyph_def)
  ultimately have a6: "glyph_id ?f 288 = Some 257" by (simp add: gid)
  have a7: "(255 :: int) < int 257 - int 1" by simp
  note t = format0_stores_deltas_modulo_256 [where pl = example_planner, OF a1 a2 a3 a4 a5]
  obtain out where o1: "cmap_toCBin example_planner ?f 4 = Inr out"
    and o2: "length out = 20 + (Suc (last (32 # [33..<332])) - 32 + 3) div 4 * 4"
    and o3: "\<forall>c. 32 \<le> c \<and> c \<le> last (32 # [33..<332]) \<longrightarrow>
              out ! (20 + (c - 32)) = format0_byte ?f 1 c \<and>
              (\<forall>i. glyph_id ?f c = Some i \<and> i \<noteq> 0 \<longrightarrow>
                 unat (out ! (20 + (c - 32))) = nat ((int i - int 1) mod 256)) \<and>
              (glyph_id ?f c = None \<longrightarrow> out ! (20 + (c - 32)) = 0)"
    using t by (elim exE conjE) (rule that, assumption+)
  have l: "length out = 320" unfolding o2 wide_codes_facts(5) by simp
  have "out ! (20 + (288 - 32)) = format0_byte ?f 1 288"
    using o3 [THEN spec, of 288] unfolding wide_codes_facts(5) by simp
  also have "\<dots> = 0" by (simp add: format0_byte_def a6)
  finally have b: "out ! (20 + (288 - 32)) = 0" .
  from a1 a2 a3 a4 a5 a6 a7 o1 l b show ?thesis by blast
qed

subsection \<open>The container of three concrete entries\<close>

lemma example_sorted:
  "sortFiles example_host (addFiles example_entries) =
     [\<lparr>filename = ascii ''a.bin'', data = [255, 255], size_f = 2, width = 0, height = 0\<rparr>,
      \<lparr>filename = ascii ''b.bin'', data = [1, 2, 3], size_f = 3, width = 0, height = 0\<rparr>,
      \<lparr>filename = ascii ''index.json'', data = [], size_f = 0, width = 0, height = 0\<rparr>]"
  by (simp add: example_entries_def run_defs)

lemma example_dimensions:
  "resolve_dimensions example_host \<lparr>filename = ascii ''a.bin'', data = d1, size_f = n1, width = 0, height = 0\<rparr> = (0, 0)"
  "resolve_dimensions example_host \<lparr>filename = ascii ''b.bin'', data = d2, size_f = n2, width = 0, height = 0\<rparr> = (0, 0)"
  "resolve_dimensions example_host \<lparr>filename = ascii ''index.json'', data = d3, size_f = n3, width = 0, height = 0\<rparr> = (0, 0)"
  by (simp_all add: resolve_dimensions_def parseSpecialImageFormat_def example_host_def
      asciiLower_def ascii_def dot_def pop_def or_empty_def Let_def)

lemma example_infos:
  "packed_infos example_host (addFiles example_entries) =
     [\<lparr>filename = ascii ''a.bin'', data = [255, 255], size_f = 2, width = 0, height = 0,
        offset = 0\<rparr>,
      \<lparr>filename = ascii ''b.bin'', data = [1, 2, 3], size_f = 3, width = 0, height = 0,
        offset = 4\<rparr>,
      \<lparr>filename = ascii ''index.json'', data = [], size_f = 0, width = 0, height = 0,
        offset = 9\<rparr>]"
  by (simp add: packed_infos_def example_sorted example_dimensions)

lemma example_checksum:
  "byte_sum (table_bytes example_host (addFiles example_entries)
             @ region_bytes example_host (addFiles example_entries)) = 3011"
  by (simp add: table_bytes_def region_bytes_def example_infos
      mmap_entry_def marked_def name32_def textEncoder_encode_def
      ascii_def lone_unit_def is_high_surrogate_def is_low_surrogate_def utf8_bytes_def
      packUint32_def packUint16_def byte_sum_def)

theorem checksum_is_byte_sum_witness:
  "example_entries \<noteq> [] \<and>
   (\<exists>out. generate example_host (addFiles example_entries) = Inr out \<and>
      length out = 155 \<and>
      mapping_table (length example_entries) out
        = table_bytes example_host (addFiles example_entries) \<and>
      data_region (length example_entries) out
        = [0x5A, 0x5A, 255, 255, 0x5A, 0x5A, 1, 2, 3, 0x5A, 0x5A] \<and>
      slice out 4 4 = [195, 11, 0, 0] \<and>
      le32 (slice out 4 4) = 3011 \<and>
      byte_sum (drop 12 out) = 3011 \<and>
      computeChecksum (mapping_table (length example_entries) out
                       @ data_region (length example_entries) out) = 3011)"
proof -
  let ?fs = "addFiles example_entries"
  have a: "example_entries \<noteq> []" by (simp add: example_entries_def)
  have n: "length example_entries = 3" by (simp add: example_entries_def)
  have rg: "region_bytes example_host ?fs = [0x5A, 0x5A, 255, 255, 0x5A, 0x5A, 1, 2, 3, 0x5A, 0x5A]"
    by (simp add: region_bytes_def example_infos marked_def)
  have pk: "packUint32 (3011 mod 65536) = [195, 11, 0, 0]"
    by (simp add: packUint32_def)
  from checksum_is_byte_sum [OF a, of example_host]
  obtain out where g: "generate example_host ?fs = Inr out"
    and l: "length out = 12 + 44 * length example_entries + length (region_bytes example_host ?fs)"
    and mt: "mapping_table (length example_entries) out = table_bytes example_host ?fs"
    and dr: "data_region (length example_entries) out = region_bytes example_host ?fs"
    and b: "drop 12 out = mapping_table (length example_entries) out
              @ data_region (length example_entries) out"
    and c: "slice out 4 4
        = packUint32 (byte_sum (table_bytes example_host ?fs @ region_bytes example_host ?fs)
                      mod 65536)"
    and d: "le32 (slice out 4 4) = byte_sum (drop 12 out) mod 65536"
    and r: "computeChecksum (mapping_table (length example_entries) out
                             @ data_region (length example_entries) out) = le32 (slice out 4 4)"
    by (elim exE conjE) (rule that, assumption+)
  have s: "byte_sum (drop 12 out) = 3011"
    by (simp only: b mt dr example_checksum)
  have l': "length out = 155" by (simp add: l n rg)
  have dr': "data_region (length example_entries) out
      = [0x5A, 0x5A, 255, 255, 0x5A, 0x5A, 1, 2, 3, 0x5A, 0x5A]"
    by (simp only: dr rg)
  have c': "slice out 4 4 = [195, 11, 0, 0]" by (simp only: c example_checksum pk)
  have d': "le32 (slice out 4 4) = 3011" by (simp add: d s)
  have r': "computeChecksum (mapping_table (length example_entries) out
                             @ data_region (length example_entries) out) = 3011"
    by (simp only: r d')
  from a g l' mt dr' c' d' s r' show ?thesis by blast
qed
section \<open>The packed wake-word models\<close>

lemma ucast_low_byte: "(ucast (c AND 0xFF :: 16 word) :: byte) = ucast c"
proof -
  have m: "(0xFF :: 16 word) = mask 8" by (simp add: mask_eq_exp_minus_1)
  show ?thesis
    unfolding m by (rule bit_word_eqI) (auto simp: bit_simps)
qed

lemma charcode_loop_inv:
  "i \<le> copyLen \<Longrightarrow> copyLen \<le> length s \<Longrightarrow> copyLen \<le> n \<Longrightarrow>
   charcode_loop s (map ucast (take i s) @ replicate (n - i) 0) i copyLen
     = map ucast (take copyLen s) @ replicate (n - copyLen) 0"
proof (induction "copyLen - i" arbitrary: i)
  case 0
  then show ?case by (simp add: charcode_loop.simps)
next
  case (Suc k)
  then have lt: "i < copyLen" by simp
  have i: "i < length s" "i < n" using lt Suc.prems by simp_all
  have st: "store_at (map ucast (take i s) @ replicate (n - i) 0) i (ucast (charCodeAt s i AND 0xFF))
      = map ucast (take (i + 1) s) @ replicate (n - (i + 1)) 0"
  proof -
    have "store_at (map ucast (take i s) @ replicate (n - i) 0) i (ucast (s ! i) :: byte)
        = (map ucast (take i s) @ [ucast (s ! i)]) @ replicate (n - i - 1) 0"
      by (rule store_at_zeros) (use i in simp_all)
    then show ?thesis using i by (simp add: charCodeAt_def ucast_low_byte take_Suc_conv_app_nth)
  qed
  have "charcode_loop s (map ucast (take i s) @ replicate (n - i) 0) i copyLen
      = charcode_loop s (map ucast (take (i + 1) s) @ replicate (n - (i + 1)) 0) (i + 1) copyLen"
    using lt by (subst charcode_loop.simps) (simp only: st if_True)
  also have "\<dots> = map ucast (take copyLen s) @ replicate (n - copyLen) 0"
    by (rule Suc.hyps(1)) (use Suc.hyps(2) Suc.prems lt in simp_all)
  finally show ?case .
qed

lemma wakenet_packString_eq:
  "wakenet_packString s n = map ucast (take n s) @ replicate (n - length s) 0"
  using charcode_loop_inv [of 0 "min (length s) n" s n]
  by (simp add: wakenet_packString_def Let_def min_def split: if_splits)

lemma length_wakenet_packString [simp]: "length (wakenet_packString s n) = n"
  by (simp add: wakenet_packString_eq)

lemma file_info_step:
  assumes n: "40 \<le> n" and pos: "length pre = pos"
  shows "file_info_loop ((fn, fd) # rest) (pre @ replicate n 0) pos d
       = file_info_loop rest
           ((pre @ wakenet_packString fn 32 @ packUint32 d @ packUint32 (length fd))
            @ replicate (n - 40) 0)
           (pos + 40) (d + length fd)"
proof -
  define p1 where "p1 = pre @ wakenet_packString fn 32"
  define p2 where "p2 = p1 @ packUint32 d"
  define p3 where "p3 = p2 @ packUint32 (length fd)"
  have l1: "length p1 = pos + 32" by (simp add: p1_def pos)
  have l2: "length p2 = pos + 32 + 4" by (simp add: p2_def l1)
  have s1: "set_at (pre @ replicate n 0) (wakenet_packString fn 32) pos = Inr (p1 @ replicate (n - 32) 0)"
    using n pos by (simp add: set_at_zeros p1_def)
  have s2: "set_at (p1 @ replicate (n - 32) 0) (packUint32 d) (pos + 32) = Inr (p2 @ replicate (n - 36) 0)"
    using n l1 by (simp add: set_at_zeros p2_def)
  have s3: "set_at (p2 @ replicate (n - 36) 0) (packUint32 (length fd)) (pos + 32 + 4)
      = Inr (p3 @ replicate (n - 40) 0)"
    using n l2 by (simp add: set_at_zeros p3_def)
  have p: "p3 = pre @ wakenet_packString fn 32 @ packUint32 d @ packUint32 (length fd)"
    by (simp add: p3_def p2_def p1_def)
  have e: "pos + 32 + 4 + 4 = pos + 40" by simp
  show ?thesis
    by (simp only: file_info_loop.simps s1 s2 s3 bindE_Inr p e)
qed

lemma file_info_loop_eq:
  "40 * length fs \<le> n \<Longrightarrow> length pre = pos \<Longrightarrow>
   file_info_loop fs (pre @ replicate n 0) pos d
     = Inr (pre @ file_infos_bytes fs d @ replicate (n - 40 * length fs) 0,
            pos + 40 * length fs, d + files_size fs)"
proof (induction fs arbitrary: pre n pos d)
  case Nil
  then show ?case by (simp add: files_size_def)
next
  case (Cons fl fs)
  obtain fn fd where fl: "fl = (fn, fd)" by (cases fl)
  let ?e = "wakenet_packString fn 32 @ packUint32 d @ packUint32 (length fd)"
  have n: "40 \<le> n" using Cons.prems(1) by simp
  have r: "40 * length fs \<le> n - 40" using Cons.prems(1) by simp
  have l: "length (pre @ ?e) = pos + 40" using Cons.prems(2) by simp
  have "file_info_loop (fl # fs) (pre @ replicate n 0) pos d
      = file_info_loop fs ((pre @ ?e) @ replicate (n - 40) 0) (pos + 40) (d + length fd)"
    unfolding fl by (rule file_info_step [OF n Cons.prems(2)])
  also have "\<dots> = Inr ((pre @ ?e) @ file_infos_bytes fs (d + length fd)
        @ replicate (n - 40 - 40 * length fs) 0,
      pos + 40 + 40 * length fs, d + length fd + files_size fs)"
    by (rule Cons.IH [OF r l])
  also have "\<dots> = Inr (pre @ file_infos_bytes (fl # fs) d @ replicate (n - 40 * length (fl # fs)) 0,
      pos + 40 * length (fl # fs), d + files_size (fl # fs))"
    by (simp add: fl files_size_def)
  finally show ?case .
qed

lemma length_file_infos_bytes [simp]: "length (file_infos_bytes fs d) = 40 * length fs"
  by (induction fs d rule: file_infos_bytes.induct) simp_all

lemma length_model_infos_bytes [simp]: "length (model_infos_bytes mdl d) = heads_size mdl"
  by (induction mdl d rule: model_infos_bytes.induct) (simp_all add: heads_size_def)

lemma model_info_step:
  assumes n: "36 + 40 * length files \<le> n" and pos: "length pre = pos"
  shows "model_info_loop ((mn, files) # rest) (pre @ replicate n 0) pos d
       = model_info_loop rest
           ((pre @ wakenet_packString mn 32 @ packUint32 (length files) @ file_infos_bytes files d)
            @ replicate (n - (36 + 40 * length files)) 0)
           (pos + (36 + 40 * length files)) (d + files_size files)"
proof -
  define p1 where "p1 = pre @ wakenet_packString mn 32"
  define p2 where "p2 = p1 @ packUint32 (length files)"
  have l1: "length p1 = pos + 32" by (simp add: p1_def pos)
  have l2: "length p2 = pos + 32 + 4" by (simp add: p2_def l1)
  have s1: "set_at (pre @ replicate n 0) (wakenet_packString mn 32) pos = Inr (p1 @ replicate (n - 32) 0)"
    using n pos by (simp add: set_at_zeros p1_def)
  have s2: "set_at (p1 @ replicate (n - 32) 0) (packUint32 (length files)) (pos + 32)
      = Inr (p2 @ replicate (n - 32 - 4) 0)"
    using n l1 by (simp add: set_at_zeros p2_def)
  have s3: "file_info_loop files (p2 @ replicate (n - 32 - 4) 0) (pos + 32 + 4) d
      = Inr (p2 @ file_infos_bytes files d @ replicate (n - 32 - 4 - 40 * length files) 0,
             pos + 32 + 4 + 40 * length files, d + files_size files)"
    by (rule file_info_loop_eq) (use n l2 in simp_all)
  have p: "p2 @ file_infos_bytes files d @ replicate (n - 32 - 4 - 40 * length files) 0
      = (pre @ wakenet_packString mn 32 @ packUint32 (length files) @ file_infos_bytes files d)
        @ replicate (n - (36 + 40 * length files)) 0"
    by (simp add: p2_def p1_def)
  have e: "pos + 32 + 4 + 40 * length files = pos + (36 + 40 * length files)" by simp
  show ?thesis
    by (simp only: model_info_loop.simps s1 s2 s3 bindE_Inr prod.case p e)
qed

lemma model_info_loop_eq:
  "heads_size mdl \<le> n \<Longrightarrow> length pre = pos \<Longrightarrow>
   model_info_loop mdl (pre @ replicate n 0) pos d
     = Inr (pre @ model_infos_bytes mdl d @ replicate (n - heads_size mdl) 0,
            pos + heads_size mdl, d + (\<Sum>model\<leftarrow>mdl. files_size (snd model)))"
proof (induction mdl arbitrary: pre n pos d)
  case Nil
  then show ?case by (simp add: heads_size_def)
next
  case (Cons model mdl)
  obtain mn files where m: "model = (mn, files)" by (cases model)
  let ?k = "36 + 40 * length files"
  let ?e = "wakenet_packString mn 32 @ packUint32 (length files) @ file_infos_bytes files d"
  have hs: "heads_size (model # mdl) = ?k + heads_size mdl" by (simp add: heads_size_def m)
  have n: "?k \<le> n" using Cons.prems(1) hs by simp
  have r: "heads_size mdl \<le> n - ?k" using Cons.prems(1) hs by simp
  have l: "length (pre @ ?e) = pos + ?k" using Cons.prems(2) by simp
  have "model_info_loop (model # mdl) (pre @ replicate n 0) pos d
      = model_info_loop mdl ((pre @ ?e) @ replicate (n - ?k) 0) (pos + ?k) (d + files_size files)"
    unfolding m by (rule model_info_step [OF n Cons.prems(2)])
  also have "\<dots> = Inr ((pre @ ?e) @ model_infos_bytes mdl (d + files_size files)
        @ replicate (n - ?k - heads_size mdl) 0,
      pos + ?k + heads_size mdl,
      d + files_size files + (\<Sum>model\<leftarrow>mdl. files_size (snd model)))"
    by (rule Cons.IH [OF r l])
  also have "\<dots> = Inr (pre @ model_infos_bytes (model # mdl) d
        @ replicate (n - heads_size (model # mdl)) 0,
      pos + heads_size (model # mdl),
      d + (\<Sum>model\<leftarrow>model # mdl. files_size (snd model)))"
    by (simp add: m hs [unfolded m])
  finally show ?case .
qed

lemma file_data_loop_eq:
  "files_size fs \<le> n \<Longrightarrow> length pre = pos \<Longrightarrow>
   file_data_loop fs (pre @ replicate n 0) pos
     = Inr (pre @ concat (map snd fs) @ replicate (n - files_size fs) 0, pos + files_size fs)"
proof (induction fs arbitrary: pre n pos)
  case Nil
  then show ?case by (simp add: files_size_def)
next
  case (Cons fl fs)
  obtain fn fd where fl: "fl = (fn, fd)" by (cases fl)
  have fs: "files_size (fl # fs) = length fd + files_size fs" by (simp add: files_size_def fl)
  have n: "length fd \<le> n" using Cons.prems(1) fs by simp
  have r: "files_size fs \<le> n - length fd" using Cons.prems(1) fs by simp
  have l: "length (pre @ fd) = pos + length fd" using Cons.prems(2) by simp
  have s: "set_at (pre @ replicate n 0) fd pos = Inr ((pre @ fd) @ replicate (n - length fd) 0)"
    using n Cons.prems(2) by (simp add: set_at_zeros)
  have "file_data_loop (fl # fs) (pre @ replicate n 0) pos
      = file_data_loop fs ((pre @ fd) @ replicate (n - length fd) 0) (pos + length fd)"
    unfolding fl by (simp only: file_data_loop.simps s bindE_Inr)
  also have "\<dots> = Inr ((pre @ fd) @ concat (map snd fs)
        @ replicate (n - length fd - files_size fs) 0, pos + length fd + files_size fs)"
    by (rule Cons.IH [OF r l])
  also have "\<dots> = Inr (pre @ concat (map snd (fl # fs)) @ replicate (n - files_size (fl # fs)) 0,
      pos + files_size (fl # fs))"
    by (simp add: fl fs [unfolded fl])
  finally show ?case .
qed

lemma length_models_data: "length (models_data mdl) = (\<Sum>model\<leftarrow>mdl. files_size (snd model))"
  by (induction mdl) (simp_all add: models_data_def files_size_def length_concat o_def)

lemma model_data_loop_eq:
  "(\<Sum>model\<leftarrow>mdl. files_size (snd model)) \<le> n \<Longrightarrow> length pre = pos \<Longrightarrow>
   model_data_loop mdl (pre @ replicate n 0) pos
     = Inr (pre @ models_data mdl @ replicate (n - (\<Sum>model\<leftarrow>mdl. files_size (snd model))) 0,
            pos + (\<Sum>model\<leftarrow>mdl. files_size (snd model)))"
proof (induction mdl arbitrary: pre n pos)
  case Nil
  then show ?case by (simp add: models_data_def)
next
  case (Cons model mdl)
  obtain mn files where m: "model = (mn, files)" by (cases model)
  let ?k = "files_size files"
  let ?t = "\<Sum>model\<leftarrow>mdl. files_size (snd model)"
  have n: "?k \<le> n" and r: "?t \<le> n - ?k" using Cons.prems(1) m by simp_all
  have l: "length (pre @ concat (map snd files)) = pos + ?k"
    using Cons.prems(2) by (simp add: files_size_def length_concat o_def)
  have s: "file_data_loop files (pre @ replicate n 0) pos
      = Inr (pre @ concat (map snd files) @ replicate (n - ?k) 0, pos + ?k)"
    by (rule file_data_loop_eq [OF n Cons.prems(2)])
  have "model_data_loop (model # mdl) (pre @ replicate n 0) pos
      = model_data_loop mdl ((pre @ concat (map snd files)) @ replicate (n - ?k) 0) (pos + ?k)"
    unfolding m by (simp only: model_data_loop.simps s bindE_Inr prod.case append_assoc)
  also have "\<dots> = Inr ((pre @ concat (map snd files)) @ models_data mdl
        @ replicate (n - ?k - ?t) 0, pos + ?k + ?t)"
    by (rule Cons.IH [OF r l])
  also have "\<dots> = Inr (pre @ models_data (model # mdl)
        @ replicate (n - (\<Sum>model\<leftarrow>model # mdl. files_size (snd model))) 0,
      pos + (\<Sum>model\<leftarrow>model # mdl. files_size (snd model)))"
    by (simp add: m models_data_def)
  finally show ?case .
qed

lemma foldl_add_sum: "foldl (\<lambda>acc x. acc + f x) a xs = (a :: nat) + (\<Sum>x\<leftarrow>xs. f x)"
  by (induction xs arbitrary: a) simp_all

lemma sum_list_mset_cong:
  assumes "mset xs = mset ys"
  shows "(\<Sum>x\<leftarrow>xs. (f x :: nat)) = (\<Sum>x\<leftarrow>ys. f x)"
proof -
  have "mset (map f xs) = mset (map f ys)" using assms by simp
  then have "sum_mset (mset (map f xs)) = sum_mset (mset (map f ys))" by (rule arg_cong)
  then show ?thesis by (simp only: sum_mset_sum_list)
qed

lemma headerLen_eq: "headerLen mdl = 4 + heads_size mdl"
proof -
  have "(\<lambda>len model. len + (32 + 4) + length (snd model) * (32 + 4 + 4))
      = (\<lambda>len (model :: jsstring \<times> model_files). len + (36 + 40 * length (snd model)))"
    by (intro ext) simp
  then show ?thesis by (simp only: headerLen_def foldl_add_sum heads_size_def)
qed

lemma totalDataSize_eq: "totalDataSize ms = (\<Sum>model\<leftarrow>ms. files_size (snd model))"
proof -
  have i: "foldl (\<lambda>fileTotal fileData. fileTotal + length fileData) 0 (map snd files)
      = files_size files" for files :: model_files
    by (simp only: foldl_add_sum files_size_def map_map o_def add_0)
  show ?thesis
    unfolding totalDataSize_def i by (simp only: foldl_add_sum map_map o_def add_0)
qed

lemma files_size_mset: "mset fs = mset fs' \<Longrightarrow> files_size fs = files_size fs'"
  unfolding files_size_def by (rule sum_list_mset_cong)

lemma data_size_modelDataList:
  "(\<Sum>model\<leftarrow>modelDataList h ms. files_size (snd model)) = (\<Sum>model\<leftarrow>ms. files_size (snd model))"
proof -
  have f: "files_size (array_sort c fs) = files_size fs" for c fs
    by (rule files_size_mset) (rule mset_array_sort)
  have a: "(\<Sum>model\<leftarrow>modelDataList h ms. files_size (snd model))
      = (\<Sum>model\<leftarrow>array_sort (compare_keys h) ms. files_size (snd model))"
    by (simp add: modelDataList_def o_def case_prod_unfold f)
  have "(\<Sum>model\<leftarrow>array_sort (compare_keys h) ms. files_size (snd model))
      = (\<Sum>model\<leftarrow>ms. files_size (snd model))"
    by (rule sum_list_mset_cong) (rule mset_array_sort)
  with a show ?thesis by simp
qed

lemma length_modelDataList [simp]: "length (modelDataList h ms) = length ms"
  by (simp add: modelDataList_def)

lemma packModels_empty: "packModels h [] = Inl (Error no_models_message)"
  by (simp add: packModels_def)

lemma packModels_eq:
  assumes "ms \<noteq> []"
  shows "packModels h ms = Inr (packed_models h ms)"
proof -
  define mdl where "mdl = modelDataList h ms"
  define hs where "hs = heads_size mdl"
  define ds where "ds = (\<Sum>model\<leftarrow>mdl. files_size (snd model))"
  define hl where "hl = 4 + hs"
  have h: "headerLen mdl = hl" by (simp add: headerLen_eq hs_def hl_def)
  have t: "hl + totalDataSize ms = 4 + (hs + ds)"
    by (simp add: hl_def totalDataSize_eq hs_def ds_def mdl_def data_size_modelDataList)
  define p0 where "p0 = packUint32 (length ms)"
  define p1 where "p1 = p0 @ model_infos_bytes mdl hl"
  have l0: "length p0 = 4" by (simp add: p0_def)
  have l1: "length p1 = 4 + hs" by (simp add: p1_def l0 hs_def)
  have s1: "set_at (replicate (4 + (hs + ds)) 0) p0 0 = Inr (p0 @ replicate (hs + ds) 0)"
    using set_at_zeros [of "[]" 0 p0 "4 + (hs + ds)" 0] by (simp add: l0)
  have s2: "model_info_loop mdl (p0 @ replicate (hs + ds) 0) 4 hl
      = Inr (p1 @ replicate ds 0, 4 + hs, hl + ds)"
    using model_info_loop_eq [of mdl "hs + ds" p0 4 hl]
    by (simp add: hs_def ds_def l0 p1_def)
  have s3: "model_data_loop mdl (p1 @ replicate ds 0) (4 + hs)
      = Inr (p1 @ models_data mdl @ replicate (ds - ds) 0, 4 + hs + ds)"
    unfolding ds_def by (rule model_data_loop_eq) (simp_all add: l1)
  have ne: "(length ms = 0) = False" using assms by simp
  have "packModels h ms = Inr (p1 @ models_data mdl @ replicate (ds - ds) 0)"
    unfolding packModels_def Let_def mdl_def [symmetric] h t p0_def [symmetric]
    by (simp only: ne if_False s1 s2 s3 bindE_Inr prod.case)
  also have "p1 @ models_data mdl @ replicate (ds - ds) 0 = packed_models h ms"
    by (simp add: packed_models_def mdl_def p1_def p0_def hl_def hs_def)
  finally show ?thesis .
qed

lemma length_packed_models:
  "length (packed_models h ms)
     = 4 + heads_size (modelDataList h ms) + (\<Sum>model\<leftarrow>ms. files_size (snd model))"
  by (simp add: packed_models_def length_models_data data_size_modelDataList)

lemma slice_split:
  assumes "slice xs a (m + n) = u @ v" and "length u = m"
  shows "slice xs a m = u" and "slice xs (a + m) n = v"
proof -
  have t: "take (m + n) (drop a xs) = u @ v" using assms(1) by (simp add: slice_def)
  have "take m (drop a xs) = take m (take (m + n) (drop a xs))" by simp
  also have "\<dots> = u" unfolding t using assms(2) by simp
  finally show "slice xs a m = u" by (simp add: slice_def)
  have "take n (drop (a + m) xs) = drop m (take (m + n) (drop a xs))"
    by (simp add: drop_take add.commute)
  also have "\<dots> = v" unfolding t using assms(2) by simp
  finally show "slice xs (a + m) n = v" by (simp add: slice_def)
qed

lemma le32_packUint32_small: "v < 2 ^ 32 \<Longrightarrow> le32 (packUint32 v) = v"
  by (simp only: le32_packUint32 mod_less)

lemma read_files_eq:
  assumes "slice blob pos (40 * length fs) = file_infos_bytes fs start"
    and "slice blob start (files_size fs) = concat (map snd fs)"
    and "start + files_size fs < 2 ^ 32"
  shows "read_files blob pos (length fs)
       = map (\<lambda>fl. (wakenet_packString (fst fl) 32, snd fl)) fs"
  using assms
proof (induction fs arbitrary: pos start)
  case Nil
  then show ?case by simp
next
  case (Cons fl fs)
  obtain fn fd where fl: "fl = (fn, fd)" by (cases fl)
  have sz: "files_size (fl # fs) = length fd + files_size fs" by (simp add: files_size_def fl)
  let ?name = "wakenet_packString fn 32"
  let ?rest = "file_infos_bytes fs (start + length fd)"
  have h: "slice blob pos (32 + (4 + (4 + 40 * length fs)))
      = ?name @ packUint32 start @ packUint32 (length fd) @ ?rest"
    using Cons.prems(1) by (simp add: fl)
  have n: "slice blob pos 32 = ?name"
    by (rule slice_split(1) [OF h]) simp
  have h1: "slice blob (pos + 32) (4 + (4 + 40 * length fs))
      = packUint32 start @ packUint32 (length fd) @ ?rest"
    by (rule slice_split(2) [OF h]) simp
  have s: "slice blob (pos + 32) 4 = packUint32 start"
    by (rule slice_split(1) [OF h1]) simp
  have h2: "slice blob (pos + 32 + 4) (4 + 40 * length fs) = packUint32 (length fd) @ ?rest"
    by (rule slice_split(2) [OF h1]) simp
  have l: "slice blob (pos + 32 + 4) 4 = packUint32 (length fd)"
    by (rule slice_split(1) [OF h2]) simp
  have r: "slice blob (pos + 32 + 4 + 4) (40 * length fs) = ?rest"
    by (rule slice_split(2) [OF h2]) simp
  have d: "slice blob start (length fd + files_size fs) = fd @ concat (map snd fs)"
    using Cons.prems(2) unfolding sz by (simp add: fl)
  have d1: "slice blob start (length fd) = fd"
    by (rule slice_split(1) [OF d]) simp
  have d2: "slice blob (start + length fd) (files_size fs) = concat (map snd fs)"
    by (rule slice_split(2) [OF d]) simp
  have b: "start < 2 ^ 32" "length fd < 2 ^ 32" "start + length fd + files_size fs < 2 ^ 32"
    using Cons.prems(3) by (simp_all add: sz)
  have ih: "read_files blob (pos + 40) (length fs)
      = map (\<lambda>fl. (wakenet_packString (fst fl) 32, snd fl)) fs"
    using Cons.IH [of "pos + 40" "start + length fd"] r d2 b(3) by (simp add: add.assoc)
  have e: "pos + 36 = pos + 32 + 4" by simp
  have s': "le32 (slice blob (pos + 32) 4) = start"
    by (simp only: s le32_packUint32_small [OF b(1)])
  have l': "le32 (slice blob (pos + 36) 4) = length fd"
    by (simp only: e l le32_packUint32_small [OF b(2)])
  show ?case
    by (simp only: length_Cons read_files.simps n s' l' d1 ih list.map fl fst_conv snd_conv)
qed

lemma read_models_eq:
  assumes "slice blob pos (heads_size mdl) = model_infos_bytes mdl start"
    and "slice blob start (\<Sum>model\<leftarrow>mdl. files_size (snd model)) = models_data mdl"
    and "start + (\<Sum>model\<leftarrow>mdl. files_size (snd model)) < 2 ^ 32"
    and "\<forall>model\<in>set mdl. length (snd model) < 2 ^ 32"
  shows "read_models blob pos (length mdl) = packed_view mdl"
  using assms
proof (induction mdl arbitrary: pos start)
  case Nil
  then show ?case by (simp add: packed_view_def)
next
  case (Cons model mdl)
  obtain mn files where m: "model = (mn, files)" by (cases model)
  let ?t = "\<Sum>model\<leftarrow>mdl. files_size (snd model)"
  let ?name = "wakenet_packString mn 32"
  let ?rest = "model_infos_bytes mdl (start + files_size files)"
  have hs: "heads_size (model # mdl) = 32 + (4 + (40 * length files + heads_size mdl))"
    by (simp add: heads_size_def m)
  have h: "slice blob pos (32 + (4 + (40 * length files + heads_size mdl)))
      = ?name @ packUint32 (length files) @ file_infos_bytes files start @ ?rest"
    using Cons.prems(1) unfolding hs by (simp add: m)
  have n: "slice blob pos 32 = ?name"
    by (rule slice_split(1) [OF h]) simp
  have h1: "slice blob (pos + 32) (4 + (40 * length files + heads_size mdl))
      = packUint32 (length files) @ file_infos_bytes files start @ ?rest"
    by (rule slice_split(2) [OF h]) simp
  have c: "slice blob (pos + 32) 4 = packUint32 (length files)"
    by (rule slice_split(1) [OF h1]) simp
  have h2: "slice blob (pos + 32 + 4) (40 * length files + heads_size mdl)
      = file_infos_bytes files start @ ?rest"
    by (rule slice_split(2) [OF h1]) simp
  have f: "slice blob (pos + 32 + 4) (40 * length files) = file_infos_bytes files start"
    by (rule slice_split(1) [OF h2]) simp
  have r: "slice blob (pos + 32 + 4 + 40 * length files) (heads_size mdl) = ?rest"
    by (rule slice_split(2) [OF h2]) simp
  have d: "slice blob start (files_size files + ?t) = concat (map snd files) @ models_data mdl"
    using Cons.prems(2) by (simp add: m models_data_def)
  have ld: "length (concat (map snd files)) = files_size files"
    by (simp add: files_size_def length_concat o_def)
  have d1: "slice blob start (files_size files) = concat (map snd files)"
    by (rule slice_split(1) [OF d ld])
  have d2: "slice blob (start + files_size files) ?t = models_data mdl"
    by (rule slice_split(2) [OF d ld])
  have b: "start + files_size files < 2 ^ 32" "start + files_size files + ?t < 2 ^ 32"
    "length files < 2 ^ 32" "\<forall>model\<in>set mdl. length (snd model) < 2 ^ 32"
    using Cons.prems(3,4) by (simp_all add: m)
  have rf: "read_files blob (pos + 36) (length files)
      = map (\<lambda>fl. (wakenet_packString (fst fl) 32, snd fl)) files"
    using read_files_eq [OF f d1 b(1)] by (simp add: add.assoc)
  have ih: "read_models blob (pos + 36 + 40 * length files) (length mdl) = packed_view mdl"
    using Cons.IH [of "pos + 36 + 40 * length files" "start + files_size files"] r d2 b(2,4)
    by (simp add: add.assoc)
  have c': "le32 (slice blob (pos + 32) 4) = length files"
    by (simp only: c le32_packUint32_small [OF b(3)])
  show ?case
    by (simp add: m n c' rf ih packed_view_def del: One_nat_def)
qed

lemma heads_size_bounds:
  "model \<in> set mdl \<Longrightarrow> 40 * length (snd model) \<le> heads_size mdl"
  "36 * length mdl \<le> heads_size mdl"
  by (induction mdl) (auto simp: heads_size_def)

lemma unpack_packed_models:
  assumes "length (packed_models h ms) < 2 ^ 32"
  shows "unpack_models (packed_models h ms) = packed_view (modelDataList h ms)"
proof -
  define mdl where "mdl = modelDataList h ms"
  define hs where "hs = heads_size mdl"
  define ds where "ds = (\<Sum>model\<leftarrow>mdl. files_size (snd model))"
  define heads where "heads = model_infos_bytes mdl (4 + hs)"
  define blob where "blob = packed_models h ms"
  have blob: "blob = packUint32 (length ms) @ heads @ models_data mdl"
    by (simp add: blob_def packed_models_def heads_def hs_def mdl_def)
  have lh: "length heads = hs" by (simp add: heads_def hs_def)
  have ld: "length (models_data mdl) = ds" by (simp add: ds_def length_models_data)
  have len: "4 + hs + ds < 2 ^ 32" using assms by (simp add: blob_def [symmetric] blob lh ld)
  have c: "slice blob 0 4 = packUint32 (length ms)"
    unfolding blob using slice_prefix [of "packUint32 (length ms)"] by simp
  have "36 * length mdl \<le> hs" unfolding hs_def by (rule heads_size_bounds(2))
  then have n: "length ms < 2 ^ 32" using len by (simp add: mdl_def)
  have s1: "slice blob 4 hs = heads"
    unfolding blob using slice_append_right [of "packUint32 (length ms)" "heads @ models_data mdl" 0 hs]
      slice_prefix [of heads "models_data mdl"] by (simp add: lh)
  have s2: "slice blob (4 + hs) ds = models_data mdl"
    using slice_append_right [of "packUint32 (length ms) @ heads" "models_data mdl" 0 ds]
    by (simp add: blob lh slice_def ld)
  have fb: "\<forall>model\<in>set mdl. length (snd model) < 2 ^ 32"
  proof
    fix model assume "model \<in> set mdl"
    then have "40 * length (snd model) \<le> hs" unfolding hs_def by (rule heads_size_bounds(1))
    then show "length (snd model) < 2 ^ 32" using len by simp
  qed
  have "read_models blob 4 (length mdl) = packed_view mdl"
  proof (rule read_models_eq [where start = "4 + hs"])
    show "slice blob 4 (heads_size mdl) = model_infos_bytes mdl (4 + hs)"
      using s1 by (simp only: hs_def heads_def)
    show "slice blob (4 + hs) (\<Sum>model\<leftarrow>mdl. files_size (snd model)) = models_data mdl"
      using s2 by (simp only: ds_def)
    show "4 + hs + (\<Sum>model\<leftarrow>mdl. files_size (snd model)) < 2 ^ 32"
      using len by (simp only: ds_def)
    show "\<forall>model\<in>set mdl. length (snd model) < 2 ^ 32" by (rule fb)
  qed
  moreover have "le32 (slice blob 0 4) = length mdl"
    by (simp only: c le32_packUint32_small [OF n] mdl_def length_modelDataList)
  ultimately show ?thesis
    by (simp only: unpack_models_def blob_def [symmetric] mdl_def)
qed

lemma ucast_back:
  assumes "c < 256"
  shows "(ucast (ucast (c :: 16 word) :: byte) :: 16 word) = c"
proof -
  have "c < 2 ^ 8" using assms by simp
  then have t: "take_bit 8 c = c" by (simp only: less_mask_eq take_bit_eq_mask)
  have "(ucast (ucast c :: byte) :: 16 word) = take_bit 8 c"
    by (rule bit_word_eqI) (auto simp: bit_simps)
  with t show ?thesis by simp
qed

lemma ucast_nonzero: "c < 256 \<Longrightarrow> c \<noteq> 0 \<Longrightarrow> (ucast (c :: 16 word) :: byte) \<noteq> 0"
  by (metis ucast_back ucast_0)

lemma takeWhile_zeros:
  "\<forall>x\<in>set xs. x \<noteq> (0 :: byte) \<Longrightarrow> takeWhile (\<lambda>b. b \<noteq> 0) (xs @ replicate k 0) = xs"
  by (cases k) (simp_all add: takeWhile_append2 takeWhile_append1)

lemma field_name_packString:
  assumes "length s \<le> 32" and "\<forall>c\<in>set s. c \<noteq> 0 \<and> c < 256"
  shows "field_name (wakenet_packString s 32) = s"
proof -
  have p: "wakenet_packString s 32 = map ucast s @ replicate (32 - length s) 0"
    using assms(1) by (simp add: wakenet_packString_eq)
  have nz: "\<forall>x\<in>set (map ucast s :: byte list). x \<noteq> 0"
    using assms(2) by (auto simp: ucast_nonzero)
  have "field_name (wakenet_packString s 32) = map ucast (map ucast s :: byte list)"
    unfolding field_name_def p by (simp only: takeWhile_zeros [OF nz])
  also have "\<dots> = s"
    using assms(2) by (simp add: ucast_back map_idI)
  finally show ?thesis .
qed

lemma consistent_compare_keys:
  assumes "linear_on N (localeCompare h)" and "fst ` set xs \<subseteq> N"
  shows "consistent_on (set xs) (compare_keys h)"
  unfolding consistent_on_def compare_keys_def
proof (intro conjI ballI impI)
  fix a b assume "a \<in> set xs" "b \<in> set xs"
  then have "fst a \<in> N" "fst b \<in> N" using assms(2) by auto
  then show "localeCompare h (fst a) (fst b) \<le> 0 \<or> localeCompare h (fst b) (fst a) \<le> 0"
    using assms(1) unfolding linear_on_def by (smt (verit, best))
next
  fix a b d assume "a \<in> set xs" "b \<in> set xs" "d \<in> set xs"
    and "localeCompare h (fst a) (fst b) \<le> 0" "localeCompare h (fst b) (fst d) \<le> 0"
  moreover have "fst a \<in> N" "fst b \<in> N" "fst d \<in> N" using calculation(1-3) assms(2) by auto
  ultimately show "localeCompare h (fst a) (fst d) \<le> 0"
    using assms(1) unfolding linear_on_def by blast
qed

lemma sorted_by_keys:
  assumes "linear_on N (localeCompare h)" and "fst ` set xs \<subseteq> N"
  shows "sorted_wrt (\<lambda>a b. localeCompare h (fst a) (fst b) \<le> 0) (array_sort (compare_keys h) xs)"
  using sorted_array_sort [OF consistent_compare_keys [OF assms]]
  by (simp add: compare_keys_def)

lemma modelDataList_rearranges:
  "mset (map (\<lambda>model. (fst model, mset (snd model))) (modelDataList h ms))
     = mset (map (\<lambda>model. (fst model, mset (snd model))) ms)"
proof -
  have "map (\<lambda>model. (fst model, mset (snd model))) (modelDataList h ms)
      = map (\<lambda>model. (fst model, mset (snd model))) (array_sort (compare_keys h) ms)"
    by (simp add: modelDataList_def case_prod_unfold mset_array_sort)
  then show ?thesis by (simp add: mset_array_sort)
qed

lemma model_names_modelDataList: "model_names (modelDataList h ms) = model_names ms"
  by (auto simp: model_names_def modelDataList_def case_prod_unfold image_iff) force+

lemma modelDataList_sorted:
  assumes "linear_on (model_names ms) (localeCompare h)"
  shows "sorted_wrt (\<lambda>a b. localeCompare h (fst a) (fst b) \<le> 0) (modelDataList h ms)"
    and "\<forall>model\<in>set (modelDataList h ms).
           sorted_wrt (\<lambda>a b. localeCompare h (fst a) (fst b) \<le> 0) (snd model)"
proof -
  have m: "fst ` set ms \<subseteq> model_names ms" by (auto simp: model_names_def)
  have "sorted_wrt (\<lambda>a b. localeCompare h (fst a) (fst b) \<le> 0) (array_sort (compare_keys h) ms)"
    by (rule sorted_by_keys [OF assms m])
  then show "sorted_wrt (\<lambda>a b. localeCompare h (fst a) (fst b) \<le> 0) (modelDataList h ms)"
    by (simp add: modelDataList_def sorted_wrt_map case_prod_unfold)
  show "\<forall>model\<in>set (modelDataList h ms).
           sorted_wrt (\<lambda>a b. localeCompare h (fst a) (fst b) \<le> 0) (snd model)"
  proof
    fix model assume "model \<in> set (modelDataList h ms)"
    then obtain mn files where mf: "(mn, files) \<in> set ms"
      and e: "model = (mn, array_sort (compare_keys h) files)"
      by (auto simp: modelDataList_def)
    have f: "fst ` set files \<subseteq> model_names ms" using mf by (force simp: model_names_def)
    show "sorted_wrt (\<lambda>a b. localeCompare h (fst a) (fst b) \<le> 0) (snd model)"
      unfolding e snd_conv by (rule sorted_by_keys [OF assms f])
  qed
qed

lemma named_packed_view:
  assumes "names_fit mdl"
  shows "named_view (packed_view mdl) = mdl"
proof -
  have n: "field_name (wakenet_packString s 32) = s" if "s \<in> model_names mdl" for s
    using assms that unfolding names_fit_def by (intro field_name_packString) auto
  have f: "map ((\<lambda>fl. (field_name (fst fl), snd fl)) \<circ>
                (\<lambda>fl. (wakenet_packString (fst fl) 32, snd fl))) (snd model) = snd model"
    if "model \<in> set mdl" for model
  proof -
    have "fst fl \<in> model_names mdl" if "fl \<in> set (snd model)" for fl
      using that \<open>model \<in> set mdl\<close> by (force simp: model_names_def)
    then show ?thesis by (simp add: o_def n map_idI)
  qed
  have "named_view (packed_view mdl) = map (\<lambda>model. model) mdl"
    unfolding named_view_def packed_view_def map_map
  proof (rule map_cong [OF refl])
    fix model assume m: "model \<in> set mdl"
    then have "fst model \<in> model_names mdl" by (simp add: model_names_def)
    then show "((\<lambda>model. (field_name (fst model),
                   map (\<lambda>fl. (field_name (fst fl), snd fl)) (snd model))) \<circ>
               (\<lambda>model. (wakenet_packString (fst model) 32,
                   map (\<lambda>fl. (wakenet_packString (fst fl) 32, snd fl)) (snd model)))) model = model"
      by (simp add: n f [OF m] prod_eq_iff)
  qed
  then show ?thesis by simp
qed


lemma two_models_value:
  "two_models =
     [(ascii ''wn9_b'', [(ascii ''wn9_index'', [1, 2]), (ascii ''wn9_data'', [3, 4, 5]),
                         (ascii ''_MODEL_INFO_'', [6])]),
      (ascii ''wn9_a'', [(ascii ''wn9_index'', []), (ascii ''wn9_data'', [7, 8]),
                         (ascii ''_MODEL_INFO_'', [9, 10, 11, 12])])]"
  by (simp add: two_models_def addModelFile_def ascii_def)

lemma two_models_sorted:
  "modelDataList example_host two_models =
     [(ascii ''wn9_a'', [(ascii ''_MODEL_INFO_'', [9, 10, 11, 12]), (ascii ''wn9_data'', [7, 8]),
                         (ascii ''wn9_index'', [])]),
      (ascii ''wn9_b'', [(ascii ''_MODEL_INFO_'', [6]), (ascii ''wn9_data'', [3, 4, 5]),
                         (ascii ''wn9_index'', [1, 2])])]"
  unfolding two_models_value
  by (simp add: modelDataList_def array_sort_def compare_keys_def example_host_def
      codeUnitCompare_def ascii_def)



end
